theory Spec2Isabelle
  imports Main "HOL-Library.Word"
begin

section \<open>JavaScript strings\<close>

text \<open>
  A JavaScript string is a sequence of 16-bit code units. \<open>of_ascii\<close> writes a literal of
  the source as such a sequence.
\<close>

type_synonym code_unit = "16 word"
type_synonym jsstring = "code_unit list"

definition of_ascii :: "string \<Rightarrow> jsstring" where
  "of_ascii = map of_char"

text \<open>
  \<open>String.prototype.trim\<close> strips the code units of the ECMAScript productions
  WhiteSpace (TAB, VT, FF, ZWNBSP and the space separators) and LineTerminator
  (LF, CR, LS, PS) from both ends.
\<close>

definition is_ws :: "code_unit \<Rightarrow> bool" where
  "is_ws c \<longleftrightarrow> c \<in> set [0x0009, 0x000A, 0x000B, 0x000C, 0x000D, 0x0020, 0x00A0, 0x1680,
      0x2000, 0x2001, 0x2002, 0x2003, 0x2004, 0x2005, 0x2006, 0x2007, 0x2008, 0x2009, 0x200A,
      0x2028, 0x2029, 0x202F, 0x205F, 0x3000, 0xFEFF]"

definition trim :: "jsstring \<Rightarrow> jsstring" where
  "trim s = rev (dropWhile is_ws (rev (dropWhile is_ws s)))"

text \<open>A string is truthy when it is not empty.\<close>

definition truthy :: "jsstring \<Rightarrow> bool" where
  "truthy s \<longleftrightarrow> s \<noteq> []"

text \<open>
  \<open>s.split(sep)\<close> for a separator of one code unit: the pieces between the occurrences of
  the separator, empty pieces included; the result always has at least one piece.
\<close>

fun split :: "code_unit \<Rightarrow> jsstring \<Rightarrow> jsstring list" where
  "split sep [] = [[]]"
| "split sep (c # cs) =
     (if c = sep then [] # split sep cs
      else (c # hd (split sep cs)) # tl (split sep cs))"

text \<open>\<open>xs[i]\<close> is \<open>undefined\<close> (here \<open>None\<close>) past the end of the array.\<close>

definition index :: "'a list \<Rightarrow> nat \<Rightarrow> 'a option" where
  "index xs i = (if i < length xs then Some (xs ! i) else None)"

section \<open>Login.tsx\<close>

text \<open>
  \<open>handleSubmit\<close> of the login form, on the current value of the input field. The result
  is the argument \<open>onLogin\<close> is called with, \<open>None\<close> when it is not called:
  \<^verbatim>\<open>if (username.trim()) { onLogin(username.trim()); }\<close>
\<close>

definition handleSubmit :: "jsstring \<Rightarrow> jsstring option" where
  "handleSubmit username =
     (if truthy (trim username) then Some (trim username) else None)"

section \<open>The relay: room of a connection\<close>

definition slash :: code_unit where
  "slash = 0x002F"

definition default_room :: jsstring where
  "default_room = of_ascii ''default-room''"

text \<open>
  \<^verbatim>\<open>const roomName = req.url.split('/')[1] || 'default-room';\<close>
  The left operand of \<open>||\<close> is falsy when it is \<open>undefined\<close> or the empty string.
\<close>

definition roomName :: "jsstring \<Rightarrow> jsstring" where
  "roomName url =
     (case index (split slash url) 1 of
        None \<Rightarrow> default_room
      | Some seg \<Rightarrow> if truthy seg then seg else default_room)"

section \<open>Changes and the list of recent changes\<close>

text \<open>The interface \<open>Change\<close>; a \<open>Date\<close> is its time value in milliseconds.\<close>

record change =
  change_id :: jsstring
  user :: jsstring
  userColor :: jsstring
  content :: jsstring
  timestamp :: int

text \<open>
  The updater given to \<open>setChanges\<close>:
  \<^verbatim>\<open>prev => [newChange, ...prev].slice(0, 10)\<close>
\<close>

definition record_change :: "change \<Rightarrow> change list \<Rightarrow> change list" where
  "record_change newChange prev = take 10 (newChange # prev)"

text \<open>
  \<open>ChangeHistory\<close> renders one item per change, in the order of the array it is given
  (\<open>changes.map\<close>); an item is keyed by the id of its change.
\<close>

record change_item =
  item_key :: jsstring
  item_user :: jsstring
  item_color :: jsstring
  item_content :: jsstring
  item_time :: int

definition render_item :: "change \<Rightarrow> change_item" where
  "render_item c =
     \<lparr>item_key = change_id c, item_user = user c, item_color = userColor c,
      item_content = content c, item_time = timestamp c\<rparr>"

definition ChangeHistory :: "change list \<Rightarrow> change_item list" where
  "ChangeHistory changes = map render_item changes"

section \<open>Numbers as strings\<close>

text \<open>
  \<open>Number.prototype.toString\<close> on an integer of magnitude below \<open>10^21\<close> (every time value
  is): the decimal digits, most significant first, after a minus sign for a negative number.
\<close>

definition digit_unit :: "nat \<Rightarrow> code_unit" where
  "digit_unit d = of_nat (48 + d)"

fun digits :: "nat \<Rightarrow> jsstring" where
  "digits n = (if n < 10 then [digit_unit n] else digits (n div 10) @ [digit_unit (n mod 10)])"

definition minus_sign :: code_unit where
  "minus_sign = 0x002D"

definition toString :: "int \<Rightarrow> jsstring" where
  "toString i = (if i < 0 then minus_sign # digits (nat (- i)) else digits (nat i))"

text \<open>The number a sequence of decimal digits denotes.\<close>

definition digit_val :: "code_unit \<Rightarrow> nat" where
  "digit_val c = unat c - 48"

definition number_of :: "jsstring \<Rightarrow> nat" where
  "number_of ds = foldl (\<lambda>a c. 10 * a + digit_val c) 0 ds"

section \<open>The relay (server)\<close>

text \<open>
  A frame is relayed as it was received, text or binary. The one frame the relay builds
  itself is the status frame: \<^verbatim>\<open>JSON.stringify({ type: 'status', status: 'connected' })\<close>.
\<close>

datatype frame = Text jsstring | Binary "8 word list"

definition status_frame :: frame where
  "status_frame = Text (of_ascii ''{\"type\":\"status\",\"status\":\"connected\"}'')"

datatype readyState = CONNECTING | OPEN | CLOSING | CLOSED

text \<open>
  A socket object \<open>ws\<close> is identified by its rank among the accepted connections, a
  \<open>Set\<close> object by its rank among the allocated ones. The state of the relay:
  \<^item> \<open>rooms\<close>: the \<open>Map\<close> from room names to \<open>Set\<close> objects;
  \<^item> \<open>sets\<close>: the elements of each \<open>Set\<close> object, in insertion order (the order of
    \<open>forEach\<close>);
  \<^item> \<open>listeners\<close>: the variables \<open>roomName\<close> and \<open>room\<close> captured by the handlers
    registered on a socket, \<open>None\<close> when it has no handlers;
  \<^item> \<open>readyState\<close>: the ready state of each socket;
  \<^item> \<open>sent\<close>: the frames accepted by \<open>send\<close> on each socket, oldest first.
\<close>

type_synonym ws = nat
type_synonym set_ref = nat

record relay =
  rooms :: "jsstring \<rightharpoonup> set_ref"
  sets :: "set_ref \<Rightarrow> ws list"
  next_set :: set_ref
  next_ws :: ws
  listeners :: "ws \<rightharpoonup> jsstring \<times> set_ref"
  readyState :: "ws \<Rightarrow> readyState"
  sent :: "ws \<Rightarrow> frame list"

definition initial :: relay where
  "initial =
     \<lparr>rooms = Map.empty, sets = (\<lambda>_. []), next_set = 0, next_ws = 0,
      listeners = Map.empty, readyState = (\<lambda>_. CLOSED), sent = (\<lambda>_. [])\<rparr>"

text \<open>\<open>Set.prototype.add\<close> and \<open>Set.prototype.delete\<close> on the list of elements.\<close>

definition set_add :: "'a \<Rightarrow> 'a list \<Rightarrow> 'a list" where
  "set_add x xs = (if x \<in> set xs then xs else xs @ [x])"

definition set_delete :: "'a \<Rightarrow> 'a list \<Rightarrow> 'a list" where
  "set_delete x xs = filter (\<lambda>y. y \<noteq> x) xs"

text \<open>
  A handler either returns or is left by an exception; both carry the state reached.
  Nothing in the relay catches an exception.
\<close>

datatype 'a completion = Returned 'a | Thrown 'a

fun state_of :: "'a completion \<Rightarrow> 'a" where
  "state_of (Returned s) = s"
| "state_of (Thrown s) = s"

text \<open>
  \<open>client.send(frame)\<close>. The parameter \<open>throws\<close> tells on which sockets this call raises
  instead of accepting the frame.
\<close>

definition send :: "(ws \<Rightarrow> bool) \<Rightarrow> ws \<Rightarrow> frame \<Rightarrow> relay \<Rightarrow> relay completion" where
  "send throws client message s =
     (if throws client then Thrown s
      else Returned (s\<lparr>sent := (sent s)(client := sent s client @ [message])\<rparr>))"

text \<open>
  The body of the \<open>message\<close> handler of socket \<open>ws\<close>, over the elements of \<open>room\<close>:
  \<^verbatim>\<open>
  room.forEach((client) => {
    if (client !== ws && client.readyState === WebSocket.OPEN) {
      client.send(message);
    }
  });\<close>
\<close>

fun forEach_send ::
  "(ws \<Rightarrow> bool) \<Rightarrow> ws \<Rightarrow> frame \<Rightarrow> ws list \<Rightarrow> relay \<Rightarrow> relay completion" where
  "forEach_send throws ws message [] s = Returned s"
| "forEach_send throws ws message (client # clients) s =
     (if client \<noteq> ws \<and> readyState s client = OPEN then
        (case send throws client message s of
           Thrown s' \<Rightarrow> Thrown s'
         | Returned s' \<Rightarrow> forEach_send throws ws message clients s')
      else forEach_send throws ws message clients s)"

definition on_message :: "(ws \<Rightarrow> bool) \<Rightarrow> ws \<Rightarrow> frame \<Rightarrow> relay \<Rightarrow> relay completion" where
  "on_message throws ws message s =
     (case listeners s ws of
        None \<Rightarrow> Returned s
      | Some (name, room) \<Rightarrow> forEach_send throws ws message (sets s room) s)"

text \<open>
  The \<open>close\<close> handler of socket \<open>ws\<close>:
  \<^verbatim>\<open>
  room.delete(ws);
  if (room.size === 0) {
    rooms.delete(roomName);
  }\<close>
\<close>

definition on_close :: "ws \<Rightarrow> relay \<Rightarrow> relay" where
  "on_close ws s =
     (case listeners s ws of
        None \<Rightarrow> s
      | Some (name, room) \<Rightarrow>
          (let s1 = s\<lparr>sets := (sets s)(room := set_delete ws (sets s room))\<rparr>
           in if length (sets s1 room) = 0 then s1\<lparr>rooms := (rooms s1)(name := None)\<rparr>
              else s1))"

text \<open>
  The \<open>connection\<close> handler, in its three steps. First
  \<^verbatim>\<open>if (!rooms.has(roomName)) { rooms.set(roomName, new Set()); }\<close>
\<close>

definition init_room :: "jsstring \<Rightarrow> relay \<Rightarrow> relay" where
  "init_room name s =
     (if rooms s name = None then
        s\<lparr>sets := (sets s)(next_set s := []), next_set := Suc (next_set s),
          rooms := (rooms s)(name \<mapsto> next_set s)\<rparr>
      else s)"

text \<open>
  then \<^verbatim>\<open>const room = rooms.get(roomName); room.add(ws);\<close>, where calling \<open>add\<close> on
  \<open>undefined\<close> would raise; then the status frame to the new socket, and the handlers
  registered on it. The socket handed to the handler is a new object, in state \<open>OPEN\<close>.
\<close>

definition on_connection :: "(ws \<Rightarrow> bool) \<Rightarrow> jsstring \<Rightarrow> relay \<Rightarrow> relay completion" where
  "on_connection throws url s =
     (let ws = next_ws s;
          s0 = s\<lparr>next_ws := Suc ws, readyState := (readyState s)(ws := OPEN)\<rparr>;
          name = roomName url;
          s1 = init_room name s0
      in case rooms s1 name of
           None \<Rightarrow> Thrown s1
         | Some room \<Rightarrow>
             (case send throws ws status_frame
                     (s1\<lparr>sets := (sets s1)(room := set_add ws (sets s1 room))\<rparr>) of
                Thrown s' \<Rightarrow> Thrown s'
              | Returned s2 \<Rightarrow>
                  Returned (s2\<lparr>listeners := (listeners s2)(ws \<mapsto> (name, room))\<rparr>)))"

text \<open>
  The events of the server. \<open>Closing\<close> is a socket leaving the state \<open>OPEN\<close> before its
  \<open>close\<close> event is delivered; \<open>Close\<close> delivers that event, after which the socket has
  no handlers left; the \<open>error\<close> handler only logs.
\<close>

datatype event = Connection jsstring | Message ws frame | Closing ws | Close ws | Error ws

fun step :: "(ws \<Rightarrow> bool) \<Rightarrow> event \<Rightarrow> relay \<Rightarrow> relay completion" where
  "step throws (Connection url) s = on_connection throws url s"
| "step throws (Message ws message) s = on_message throws ws message s"
| "step throws (Closing ws) s =
     Returned (if readyState s ws = OPEN then s\<lparr>readyState := (readyState s)(ws := CLOSING)\<rparr>
               else s)"
| "step throws (Close ws) s =
     Returned (let s' = on_close ws (s\<lparr>readyState := (readyState s)(ws := CLOSED)\<rparr>)
               in s'\<lparr>listeners := (listeners s')(ws := None)\<rparr>)"
| "step throws (Error ws) s = Returned s"

text \<open>
  A run of the server: each event comes with the sockets whose \<open>send\<close> raises while it is
  handled. An exception that leaves a handler ends the run.
\<close>

fun run :: "((ws \<Rightarrow> bool) \<times> event) list \<Rightarrow> relay \<Rightarrow> relay completion" where
  "run [] s = Returned s"
| "run ((throws, e) # es) s =
     (case step throws e s of
        Thrown s' \<Rightarrow> Thrown s'
      | Returned s' \<Rightarrow> run es s')"


text \<open>
  The shape of the registry between two events: every entry of \<open>rooms\<close> is an allocated
  \<open>Set\<close> that is not empty and whose elements are the sockets with handlers on that room,
  and the handlers of a socket hold the entry of their room name.
\<close>

definition registry_ok :: "relay \<Rightarrow> bool" where
  "registry_ok s \<longleftrightarrow>
     (\<forall>name room. rooms s name = Some room \<longrightarrow>
        room < next_set s \<and> sets s room \<noteq> [] \<and> distinct (sets s room) \<and>
        (\<forall>c\<in>set (sets s room). listeners s c = Some (name, room))) \<and>
     (\<forall>c name room. listeners s c = Some (name, room) \<longrightarrow>
        c < next_ws s \<and> rooms s name = Some room \<and> c \<in> set (sets s room))"

section \<open>A session of three clients\<close>

text \<open>
  Three clients connect to the room \<open>r\<close>, in the order \<open>0\<close>, \<open>1\<close>, \<open>2\<close>, and no \<open>send\<close>
  raises.
\<close>

definition no_fault :: "ws \<Rightarrow> bool" where
  "no_fault c \<longleftrightarrow> False"

definition url_r :: jsstring where
  "url_r = of_ascii ''/r''"

definition room_r :: jsstring where
  "room_r = of_ascii ''r''"

definition three_join :: "((ws \<Rightarrow> bool) \<times> event) list" where
  "three_join = [(no_fault, Connection url_r), (no_fault, Connection url_r),
                 (no_fault, Connection url_r)]"

definition three_joined :: relay where
  "three_joined =
     \<lparr>rooms = [room_r \<mapsto> 0], sets = (\<lambda>_. [])(0 := [0, 1, 2]), next_set = 1, next_ws = 3,
      listeners = [0 \<mapsto> (room_r, 0), 1 \<mapsto> (room_r, 0), 2 \<mapsto> (room_r, 0)],
      readyState = (\<lambda>_. CLOSED)(0 := OPEN, 1 := OPEN, 2 := OPEN),
      sent = (\<lambda>_. [])(0 := [status_frame], 1 := [status_frame], 2 := [status_frame])\<rparr>"

definition frame_hi :: frame where
  "frame_hi = Text (of_ascii ''hi'')"

text \<open>The same session after the socket \<open>1\<close> has begun to close.\<close>

definition one_closing :: relay where
  "one_closing = three_joined\<lparr>readyState := (readyState three_joined)(1 := CLOSING)\<rparr>"

definition then_closing :: "((ws \<Rightarrow> bool) \<times> event) list" where
  "then_closing = three_join @ [(no_fault, Closing 1)]"

text \<open>A single client in the room \<open>r\<close>, and the relay after it has left.\<close>

definition one_joined :: relay where
  "one_joined =
     \<lparr>rooms = [room_r \<mapsto> 0], sets = (\<lambda>_. [])(0 := [0]), next_set = 1, next_ws = 1,
      listeners = [0 \<mapsto> (room_r, 0)], readyState = (\<lambda>_. CLOSED)(0 := OPEN),
      sent = (\<lambda>_. [])(0 := [status_frame])\<rparr>"

definition one_left :: relay where
  "one_left =
     \<lparr>rooms = Map.empty, sets = (\<lambda>_. []), next_set = 1, next_ws = 1,
      listeners = Map.empty, readyState = (\<lambda>_. CLOSED),
      sent = (\<lambda>_. [])(0 := [status_frame])\<rparr>"

definition join_leave :: "((ws \<Rightarrow> bool) \<times> event) list" where
  "join_leave = [(no_fault, Connection url_r), (no_fault, Close 0)]"

section \<open>The editor component (client)\<close>

text \<open>
  The document and its transactions belong to the rich-text framework. Of a document the
  component reads \<open>textContent\<close> only, so a document is the text of its blocks, in order,
  and a transaction is the function from the document to the new one.
\<close>

type_synonym pm_doc = "jsstring list"
type_synonym transaction = "pm_doc \<Rightarrow> pm_doc"

definition textContent :: "pm_doc \<Rightarrow> jsstring" where
  "textContent d = concat d"

text \<open>
  \<^verbatim>\<open>mySchema.node('doc', null, [mySchema.node('paragraph', null, [])])\<close>: one empty block.
\<close>

definition emptyDoc :: pm_doc where
  "emptyDoc = [[]]"

text \<open>
  \<^verbatim>\<open>state.tr.replaceWith(0, state.doc.content.size, emptyDoc)\<close> replaces the whole content
  of the document.
\<close>

definition replaceWith_all :: "pm_doc \<Rightarrow> transaction" where
  "replaceWith_all d = (\<lambda>_. d)"

text \<open>
  An \<open>EditorView\<close> object: its document, whether \<open>destroy\<close> was called on it, and whether
  the variable \<open>currentView\<close> of the closure that created it (read by its
  \<open>dispatchTransaction\<close>) still holds it.
\<close>

record editor_view =
  doc :: pm_doc
  view_destroyed :: bool
  currentView :: bool

text \<open>
  A \<open>WebsocketProvider\<close> object: the fields \<open>user\<close> and \<open>lastChange\<close> of the local awareness
  state, the handlers of its \<open>status\<close> event, and the number of calls of \<open>destroy\<close>.
\<close>

record last_change =
  lc_id :: jsstring
  lc_user :: jsstring
  lc_timestamp :: int
  lc_content :: jsstring

datatype status_handler = HandleStatus | InitStatus

record provider =
  awareness_user :: "(jsstring \<times> jsstring) option"
  awareness_lastChange :: "last_change option"
  status_handlers :: "status_handler list"
  destroy_calls :: nat

definition new_provider :: provider where
  "new_provider =
     \<lparr>awareness_user = None, awareness_lastChange = None, status_handlers = [],
      destroy_calls = 0\<rparr>"

definition destroy :: "provider \<Rightarrow> provider" where
  "destroy p = p\<lparr>destroy_calls := Suc (destroy_calls p)\<rparr>"

definition off_status :: "status_handler \<Rightarrow> provider \<Rightarrow> provider" where
  "off_status h p = p\<lparr>status_handlers := remove1 h (status_handlers p)\<rparr>"

text \<open>
  The state of \<open>CollaborativeEditor\<close>: its React state, its refs, the objects the refs
  point to (\<open>views\<close>, \<open>providers\<close>, identified by their rank of creation), the pending
  timers (their delays) and the alerts shown.
\<close>

record component =
  username :: jsstring
  userColor_state :: jsstring
  isConnected :: bool
  changes :: "change list"
  showConfirmation :: bool
  hasContent :: bool
  editorRef :: bool
  viewRef :: "nat option"
  wsProviderRef :: "nat option"
  views :: "nat \<Rightarrow> editor_view"
  providers :: "nat \<Rightarrow> provider"
  next_view :: nat
  next_provider :: nat
  timers :: "nat list"
  alerts :: "jsstring list"

text \<open>
  The component once mounted: the initial values of \<open>useState\<close> and \<open>useRef\<close>, with the
  colour that the colour effect has drawn for the user.
\<close>

definition mount :: "jsstring \<Rightarrow> component" where
  "mount color =
     \<lparr>username = [], userColor_state = color, isConnected = False, changes = [],
      showConfirmation = False, hasContent = False, editorRef = False, viewRef = None,
      wsProviderRef = None,
      views = (\<lambda>_. \<lparr>doc = emptyDoc, view_destroyed = False, currentView = False\<rparr>),
      providers = (\<lambda>_. new_provider), next_view = 0, next_provider = 0, timers = [],
      alerts = []\<rparr>"

text \<open>\<open>handleLogin\<close>: \<^verbatim>\<open>setUsername(name)\<close>.\<close>

definition handleLogin :: "jsstring \<Rightarrow> component \<Rightarrow> component" where
  "handleLogin name s = s\<lparr>username := name\<rparr>"

text \<open>
  Rendering: \<^verbatim>\<open>if (!username) { return <Login onLogin={handleLogin} />; }\<close>, and
  otherwise the editor, with the element that \<open>editorRef\<close> is attached to.
\<close>

definition render :: "component \<Rightarrow> component" where
  "render s = s\<lparr>editorRef := truthy (username s)\<rparr>"

text \<open>Submitting the login form, with \<open>handleLogin\<close> as \<open>onLogin\<close>.\<close>

definition submit_login :: "jsstring \<Rightarrow> component \<Rightarrow> component" where
  "submit_login input s =
     (case handleSubmit input of None \<Rightarrow> s | Some name \<Rightarrow> handleLogin name s)"

text \<open>
  \<open>dispatchTransaction\<close> of the view \<open>v\<close>:
  \<^verbatim>\<open>
  if (!currentView) return;
  const newState = currentView.state.apply(transaction);
  currentView.updateState(newState);
  const text = newState.doc.textContent;
  setHasContent(Boolean(text && text.trim()));\<close>
\<close>

definition dispatchTransaction :: "nat \<Rightarrow> transaction \<Rightarrow> component \<Rightarrow> component" where
  "dispatchTransaction v tr s =
     (if \<not> currentView (views s v) then s
      else (let newDoc = tr (doc (views s v)); text = textContent newDoc
            in s\<lparr>views := (views s)(v := (views s v)\<lparr>doc := newDoc\<rparr>),
                 hasContent := (truthy text \<and> truthy (trim text))\<rparr>))"

text \<open>
  The effect that initializes the editor, in a run where the constructors do not raise.
  It returns the state and the view its cleanup function closes over, \<open>None\<close> when it
  returns no cleanup function.
\<close>

definition editor_effect :: "component \<Rightarrow> component \<times> nat option" where
  "editor_effect s =
     (if \<not> editorRef s then (s, None)
      else if \<not> truthy (username s) then (s, None)
      else
        (let s1 = (case wsProviderRef s of
                     Some p \<Rightarrow> s
                   | None \<Rightarrow>
                       s\<lparr>providers := (providers s)(next_provider s :=
                            new_provider\<lparr>status_handlers := [InitStatus]\<rparr>),
                         wsProviderRef := Some (next_provider s),
                         next_provider := Suc (next_provider s)\<rparr>);
             v = next_view s1;
             s2 = s1\<lparr>views := (views s1)(v :=
                        \<lparr>doc = emptyDoc, view_destroyed = False, currentView = True\<rparr>),
                     viewRef := Some v, next_view := Suc v\<rparr>;
             s3 = (case wsProviderRef s2 of
                     None \<Rightarrow> s2
                   | Some p \<Rightarrow>
                       s2\<lparr>providers := (providers s2)(p := (providers s2 p)
                            \<lparr>awareness_user := Some (username s2, userColor_state s2)\<rparr>)\<rparr>)
         in (s3, Some v)))"

text \<open>
  The cleanup function of that effect, for the view \<open>v\<close> of its closure:
  \<^verbatim>\<open>
  if (currentView) { currentView.destroy(); currentView = null; }
  if (wsProviderRef.current) {
    wsProviderRef.current.destroy();
    wsProviderRef.current = undefined;
  }\<close>
\<close>

definition editor_cleanup :: "nat \<Rightarrow> component \<Rightarrow> component" where
  "editor_cleanup v s =
     (let s1 = (if currentView (views s v)
                then s\<lparr>views := (views s)(v := (views s v)
                          \<lparr>view_destroyed := True, currentView := False\<rparr>)\<rparr>
                else s)
      in case wsProviderRef s1 of
           None \<Rightarrow> s1
         | Some p \<Rightarrow>
             s1\<lparr>providers := (providers s1)(p := destroy (providers s1 p)),
                wsProviderRef := None\<rparr>)"

text \<open>
  The cleanup function of the connection-status effect:
  \<^verbatim>\<open>
  wsProviderRef.current?.off('status', handleStatus);
  wsProviderRef.current?.destroy();\<close>
\<close>

definition status_cleanup :: "component \<Rightarrow> component" where
  "status_cleanup s =
     (case wsProviderRef s of
        None \<Rightarrow> s
      | Some p \<Rightarrow>
          s\<lparr>providers := (providers s)(p := destroy (off_status HandleStatus (providers s p)))\<rparr>)"

text \<open>
  Unmounting the component runs the cleanup functions of its effects in the order of their
  declaration: the one of the status effect, then the one of the editor effect.
\<close>

definition unmount :: "nat option \<Rightarrow> component \<Rightarrow> component" where
  "unmount cleanup s =
     (case cleanup of
        None \<Rightarrow> status_cleanup s
      | Some v \<Rightarrow> editor_cleanup v (status_cleanup s))"

text \<open>
  What \<open>handleSubmitChange\<close> reads from outside: the clock, at \<open>Date.now()\<close> and at
  \<open>new Date()\<close>, and whether building or dispatching the clearing transaction raises.
\<close>

record submit_env =
  now :: int
  date :: int
  dispatch_throws :: bool

definition failure_notice :: jsstring where
  "failure_notice = of_ascii ''Failed to submit change. Please try again.''"

text \<open>
  \<open>handleSubmitChange\<close>. An exception in the \<open>try\<close> block is caught: the state keeps what
  was done before it, and the failure notice is shown.
\<close>

definition handleSubmitChange :: "submit_env \<Rightarrow> component \<Rightarrow> component" where
  "handleSubmitChange env s =
     (case viewRef s of
        None \<Rightarrow> s
      | Some v \<Rightarrow>
          if \<not> hasContent s then s
          else
            (let content = textContent (doc (views s v))
             in if \<not> truthy (trim content) then s
                else
                  (let newChange =
                         \<lparr>change_id = toString (now env), user = username s,
                          userColor = userColor_state s, content = content,
                          timestamp = date env\<rparr>;
                       s1 = s\<lparr>changes := record_change newChange (changes s)\<rparr>
                   in if dispatch_throws env
                      then s1\<lparr>alerts := alerts s1 @ [failure_notice]\<rparr>
                      else
                        (let s2 = dispatchTransaction v (replaceWith_all emptyDoc) s1;
                             s3 = s2\<lparr>hasContent := False\<rparr>;
                             s4 = s3\<lparr>showConfirmation := True, timers := timers s3 @ [1500]\<rparr>
                         in case wsProviderRef s4 of
                              None \<Rightarrow> s4
                            | Some p \<Rightarrow>
                                s4\<lparr>providers := (providers s4)(p := (providers s4 p)
                                     \<lparr>awareness_lastChange := Some
                                        \<lparr>lc_id = change_id newChange, lc_user = username s,
                                         lc_timestamp = timestamp newChange,
                                         lc_content = change.content newChange\<rparr>\<rparr>)\<rparr>))))"

section \<open>A session of the editor\<close>

text \<open>
  A visit: the component is mounted, the user logs in as \<open>Ada\<close>, the editor is rendered,
  the editor effect runs, and the user types \<open>Hello world\<close>.
\<close>

definition hello :: jsstring where
  "hello = of_ascii ''Hello world''"

definition logged_in :: component where
  "logged_in =
     fst (editor_effect (render (submit_login (of_ascii '' Ada '') (mount (of_ascii ''#3b82f6'')))))"

definition typed :: component where
  "typed = dispatchTransaction 0 (replaceWith_all [hello]) logged_in"

definition first_click :: submit_env where
  "first_click = \<lparr>now = 1718000000000, date = 1718000000000, dispatch_throws = False\<rparr>"

text \<open>
  A second change, typed after the first one was submitted and submitted while the clock
  still reads the same millisecond.
\<close>

definition typed_again :: component where
  "typed_again =
     dispatchTransaction 0 (replaceWith_all [of_ascii ''again''])
       (handleSubmitChange first_click typed)"

definition second_click :: submit_env where
  "second_click = \<lparr>now = 1718000000000, date = 1718000000000, dispatch_throws = False\<rparr>"

definition later_click :: submit_env where
  "later_click = \<lparr>now = 1718000000001, date = 1718000000001, dispatch_throws = False\<rparr>"

text \<open>The session in a state where \<open>hasContent\<close> is set over an empty document.\<close>

definition stale :: component where
  "stale = logged_in\<lparr>hasContent := True\<rparr>"

section \<open>Facts about strings\<close>

lemma split_not_Nil: "split sep s \<noteq> []"
  by (cases s) simp_all

lemma split_no_sep: "sep \<notin> set seg \<Longrightarrow> split sep seg = [seg]"
  by (induction seg) auto

lemma split_segment:
  "sep \<notin> set seg \<Longrightarrow> split sep (seg @ sep # rest) = seg # split sep rest"
  by (induction seg) auto

lemma hd_dropWhile_not: "dropWhile P xs \<noteq> [] \<Longrightarrow> \<not> P (hd (dropWhile P xs))"
  by (metis hd_dropWhile)

lemma Ball_dropWhile_iff:
  "(\<forall>x\<in>set (dropWhile P xs). P x) \<longleftrightarrow> (\<forall>x\<in>set xs. P x)"
proof
  assume all: "\<forall>x\<in>set (dropWhile P xs). P x"
  have "dropWhile P xs = []"
  proof (rule ccontr)
    assume ne: "dropWhile P xs \<noteq> []"
    then have "\<not> P (hd (dropWhile P xs))"
      by (rule hd_dropWhile_not)
    moreover have "hd (dropWhile P xs) \<in> set (dropWhile P xs)"
      using ne by (rule hd_in_set)
    ultimately show False
      using all by blast
  qed
  then show "\<forall>x\<in>set xs. P x"
    by (simp only: dropWhile_eq_Nil_conv)
next
  assume "\<forall>x\<in>set xs. P x"
  then show "\<forall>x\<in>set (dropWhile P xs). P x"
    by (blast dest: set_dropWhileD)
qed

lemma trim_Nil_iff: "trim s = [] \<longleftrightarrow> (\<forall>c\<in>set s. is_ws c)"
  by (simp add: trim_def Ball_dropWhile_iff)

lemma dropWhile_decomp: "\<exists>pre. xs = pre @ dropWhile P xs \<and> (\<forall>c\<in>set pre. P c)"
proof
  show "xs = takeWhile P xs @ dropWhile P xs \<and> (\<forall>c\<in>set (takeWhile P xs). P c)"
    by (auto dest: set_takeWhileD)
qed

lemma trim_decomp:
  "\<exists>pre post. s = pre @ trim s @ post \<and> (\<forall>c\<in>set pre. is_ws c) \<and> (\<forall>c\<in>set post. is_ws c)"
proof -
  obtain pre where pre: "s = pre @ dropWhile is_ws s" "\<forall>c\<in>set pre. is_ws c"
    using dropWhile_decomp [of s is_ws] by blast
  obtain q where q: "rev (dropWhile is_ws s) = q @ dropWhile is_ws (rev (dropWhile is_ws s))"
    "\<forall>c\<in>set q. is_ws c"
    using dropWhile_decomp [of "rev (dropWhile is_ws s)" is_ws] by blast
  from q(1) have "dropWhile is_ws s = trim s @ rev q"
    unfolding trim_def by (metis rev_append rev_rev_ident)
  with pre(1) have "s = pre @ trim s @ rev q"
    by simp
  moreover have "\<forall>c\<in>set (rev q). is_ws c"
    using q(2) by simp
  ultimately show ?thesis
    using pre(2) by blast
qed

lemma dropWhile_hd_id: "xs \<noteq> [] \<Longrightarrow> \<not> P (hd xs) \<Longrightarrow> dropWhile P xs = xs"
  by (cases xs) simp_all

lemma dropWhile_rev_id:
  assumes "xs \<noteq> []" and "\<not> P (last xs)"
  shows "dropWhile P (rev xs) = rev xs"
proof -
  have "rev xs \<noteq> []" and "\<not> P (hd (rev xs))"
    using assms by (simp_all add: hd_rev)
  then show ?thesis
    by (rule dropWhile_hd_id)
qed

lemma trim_ends:
  assumes "trim s \<noteq> []"
  shows "\<not> is_ws (hd (trim s))" and "\<not> is_ws (last (trim s))"
proof -
  let ?d = "dropWhile is_ws s"
  let ?e = "dropWhile is_ws (rev ?d)"
  from assms have e: "?e \<noteq> []"
    by (simp add: trim_def)
  then have d: "?d \<noteq> []"
    by (cases "?d = []") simp_all
  from e have "\<not> is_ws (hd ?e)"
    by (rule hd_dropWhile_not)
  then show l: "\<not> is_ws (last (trim s))"
    using e by (simp add: trim_def last_rev)
  obtain q where q: "rev ?d = q @ ?e"
    using dropWhile_decomp [of "rev ?d" is_ws] by blast
  then have "?d = rev ?e @ rev q"
    by (metis rev_append rev_rev_ident)
  then have "hd ?d = hd (rev ?e @ rev q)"
    by (rule arg_cong)
  also have "\<dots> = hd (rev ?e)"
    using e by (simp del: dropWhile_eq_Nil_conv)
  finally have "hd ?d = hd (rev ?e)" .
  moreover have "\<not> is_ws (hd ?d)"
    using d by (rule hd_dropWhile_not)
  ultimately show "\<not> is_ws (hd (trim s))"
    by (simp add: trim_def)
qed

lemma trim_idem: "trim (trim s) = trim s"
proof (cases "trim s = []")
  case True
  moreover have "trim [] = []"
    by (simp add: trim_def)
  ultimately show ?thesis by simp
next
  case False
  then have h: "\<not> is_ws (hd (trim s))" and l: "\<not> is_ws (last (trim s))"
    by (rule trim_ends)+
  have "dropWhile is_ws (trim s) = trim s"
    using False h by (rule dropWhile_hd_id)
  moreover have "dropWhile is_ws (rev (trim s)) = rev (trim s)"
    using False l by (rule dropWhile_rev_id)
  ultimately show ?thesis
    by (simp add: trim_def)
qed

section \<open>Facts about decimal numerals\<close>

declare digits.simps [simp del]

lemma unat_digit_unit: "d < 10 \<Longrightarrow> unat (digit_unit d) = 48 + d"
  by (simp only: digit_unit_def unat_of_nat) simp

lemma digit_val_unit: "d < 10 \<Longrightarrow> digit_val (digit_unit d) = d"
  by (simp add: digit_val_def unat_digit_unit)

lemma number_of_snoc: "number_of (ds @ [c]) = 10 * number_of ds + digit_val c"
  by (simp add: number_of_def)

lemma number_of_digits: "number_of (digits n) = n"
proof (induction n rule: digits.induct)
  case (1 n)
  show ?case
  proof (cases "n < 10")
    case True
    then show ?thesis
      by (simp add: digits.simps [of n] number_of_def digit_val_unit)
  next
    case False
    then have "number_of (digits (n div 10)) = n div 10"
      by (rule "1.IH")
    with False show ?thesis
      by (simp add: digits.simps [of n] number_of_snoc digit_val_unit)
  qed
qed

lemma digits_inj: "digits m = digits n \<Longrightarrow> m = n"
  by (metis number_of_digits)

lemma digits_not_Nil: "digits n \<noteq> []"
  by (simp add: digits.simps [of n])

lemma digit_unit_not_minus: "d < 10 \<Longrightarrow> digit_unit d \<noteq> minus_sign"
proof
  assume "d < 10" and "digit_unit d = minus_sign"
  then have "unat minus_sign = 48 + d"
    using unat_digit_unit [of d] by simp
  then show False
    by (simp add: minus_sign_def)
qed

lemma hd_digits: "\<exists>d<10. hd (digits n) = digit_unit d"
proof (induction n rule: digits.induct)
  case (1 n)
  show ?case
  proof (cases "n < 10")
    case True
    then show ?thesis
      by (auto simp: digits.simps [of n])
  next
    case False
    then have "\<exists>d<10. hd (digits (n div 10)) = digit_unit d"
      by (rule "1.IH")
    with False show ?thesis
      by (simp add: digits.simps [of n] digits_not_Nil)
  qed
qed

lemma hd_digits_not_minus: "hd (digits n) \<noteq> minus_sign"
proof -
  obtain d where "d < 10" and "hd (digits n) = digit_unit d"
    using hd_digits [of n] by blast
  then show ?thesis
    using digit_unit_not_minus [of d] by simp
qed

lemma toString_inj: "toString i = toString j \<Longrightarrow> i = j"
proof -
  assume eq: "toString i = toString j"
  have neg: "digits a \<noteq> minus_sign # digits b" for a b
    using hd_digits_not_minus [of a] by (metis list.sel(1))
  show "i = j"
  proof (cases "i < 0")
    case True
    show ?thesis
    proof (cases "j < 0")
      case jn: True
      with True eq have "digits (nat (- i)) = digits (nat (- j))"
        by (simp add: toString_def)
      then have "nat (- i) = nat (- j)"
        by (rule digits_inj)
      with True jn show ?thesis by simp
    next
      case False
      with True eq show ?thesis
        using neg [of "nat j" "nat (- i)"] by (simp add: toString_def)
    qed
  next
    case False
    show ?thesis
    proof (cases "j < 0")
      case True
      with False eq show ?thesis
        using neg [of "nat i" "nat (- j)"] by (simp add: toString_def)
    next
      case jp: False
      with False eq have "digits (nat i) = digits (nat j)"
        by (simp add: toString_def)
      then have "nat i = nat j"
        by (rule digits_inj)
      with False jp show ?thesis by simp
    qed
  qed
qed

section \<open>The registry between events\<close>

lemma registry_ok_initial: "registry_ok initial"
  by (simp add: registry_ok_def initial_def)

lemma registry_ok_sent [simp]: "registry_ok (s\<lparr>sent := f\<rparr>) = registry_ok s"
  by (simp add: registry_ok_def)

lemma registry_ok_readyState [simp]: "registry_ok (s\<lparr>readyState := f\<rparr>) = registry_ok s"
  by (simp add: registry_ok_def)

lemma send_cases:
  "send throws c m s = (if throws c then Thrown s
     else Returned (s\<lparr>sent := (sent s)(c := sent s c @ [m])\<rparr>))"
  by (simp add: send_def)

lemma self_sent: "\<exists>f. s = s\<lparr>sent := f\<rparr>"
  by (rule exI [of _ "sent s"]) simp

lemma forEach_send_only_sent:
  "\<exists>f. state_of (forEach_send throws ws m cs s) = s\<lparr>sent := f\<rparr>"
proof (induction cs arbitrary: s)
  case Nil
  show ?case by (simp add: self_sent)
next
  case (Cons c cs)
  consider (skip) "\<not> (c \<noteq> ws \<and> readyState s c = OPEN)"
    | (raise) "c \<noteq> ws \<and> readyState s c = OPEN" "throws c"
    | (sent) "c \<noteq> ws \<and> readyState s c = OPEN" "\<not> throws c"
    by blast
  then show ?case
  proof cases
    case skip
    then show ?thesis
      using Cons.IH [of s] by auto
  next
    case raise
    then show ?thesis
      by (simp add: send_cases self_sent)
  next
    case sent
    let ?s = "s\<lparr>sent := (sent s)(c := sent s c @ [m])\<rparr>"
    obtain f where "state_of (forEach_send throws ws m cs ?s) = ?s\<lparr>sent := f\<rparr>"
      using Cons.IH by blast
    then have "state_of (forEach_send throws ws m (c # cs) s) = s\<lparr>sent := f\<rparr>"
      using sent by (simp add: send_cases)
    then show ?thesis by (rule exI [of _ f])
  qed
qed

lemma on_message_only_sent:
  "\<exists>f. state_of (on_message throws ws m s) = s\<lparr>sent := f\<rparr>"
proof (cases "listeners s ws")
  case None
  then show ?thesis
    by (simp add: on_message_def self_sent)
next
  case (Some p)
  then show ?thesis
    by (cases p) (simp add: on_message_def forEach_send_only_sent)
qed

lemma on_message_ok:
  assumes "registry_ok s"
  shows "registry_ok (state_of (on_message throws ws m s))"
proof -
  obtain f where "state_of (on_message throws ws m s) = s\<lparr>sent := f\<rparr>"
    using on_message_only_sent by blast
  with assms show ?thesis by simp
qed



lemma on_connection_new_room:
  assumes "rooms s (roomName url) = None" and "\<not> throws (next_ws s)"
  shows "on_connection throws url s = Returned
     (s\<lparr>next_ws := Suc (next_ws s),
        readyState := (readyState s)(next_ws s := OPEN),
        sets := (sets s)(next_set s := [next_ws s]),
        next_set := Suc (next_set s),
        rooms := (rooms s)(roomName url \<mapsto> next_set s),
        sent := (sent s)(next_ws s := sent s (next_ws s) @ [status_frame]),
        listeners := (listeners s)(next_ws s \<mapsto> (roomName url, next_set s))\<rparr>)"
  using assms by (simp add: on_connection_def init_room_def send_def set_add_def Let_def)

lemma on_connection_old_room:
  assumes "rooms s (roomName url) = Some room" and "\<not> throws (next_ws s)"
  shows "on_connection throws url s = Returned
     (s\<lparr>next_ws := Suc (next_ws s),
        readyState := (readyState s)(next_ws s := OPEN),
        sets := (sets s)(room := set_add (next_ws s) (sets s room)),
        sent := (sent s)(next_ws s := sent s (next_ws s) @ [status_frame]),
        listeners := (listeners s)(next_ws s \<mapsto> (roomName url, room))\<rparr>)"
  using assms by (simp add: on_connection_def init_room_def send_def Let_def)

lemma on_connection_throws:
  assumes "throws (next_ws s)"
  shows "\<exists>s'. on_connection throws url s = Thrown s'"
  using assms
  by (cases "rooms s (roomName url)") (simp_all add: on_connection_def init_room_def send_def Let_def)

lemma registry_okI:
  assumes "\<And>name room. rooms s name = Some room \<Longrightarrow>
      room < next_set s \<and> sets s room \<noteq> [] \<and> distinct (sets s room) \<and>
      (\<forall>c\<in>set (sets s room). listeners s c = Some (name, room))"
    and "\<And>c name room. listeners s c = Some (name, room) \<Longrightarrow>
      c < next_ws s \<and> rooms s name = Some room \<and> c \<in> set (sets s room)"
  shows "registry_ok s"
  using assms unfolding registry_ok_def by blast

lemma ok_room:
  assumes "registry_ok s" and "rooms s name = Some room"
  shows "room < next_set s" and "sets s room \<noteq> []" and "distinct (sets s room)"
  using assms unfolding registry_ok_def by blast+

lemma ok_member:
  assumes "registry_ok s" and "rooms s name = Some room" and "c \<in> set (sets s room)"
  shows "listeners s c = Some (name, room)"
  using assms unfolding registry_ok_def by blast

lemma ok_listener:
  assumes "registry_ok s" and "listeners s c = Some (name, room)"
  shows "c < next_ws s" and "rooms s name = Some room" and "c \<in> set (sets s room)"
  using assms unfolding registry_ok_def by blast+

lemma registry_ok_room_inj:
  assumes "registry_ok s" and "rooms s n1 = Some room" and "rooms s n2 = Some room"
  shows "n1 = n2"
proof -
  have "sets s room \<noteq> []"
    by (rule ok_room(2) [OF assms(1,2)])
  then have c: "hd (sets s room) \<in> set (sets s room)"
    by (rule hd_in_set)
  have "listeners s (hd (sets s room)) = Some (n1, room)"
    by (rule ok_member [OF assms(1,2) c])
  moreover have "listeners s (hd (sets s room)) = Some (n2, room)"
    by (rule ok_member [OF assms(1,3) c])
  ultimately show ?thesis by simp
qed

lemma on_connection_ok:
  assumes inv: "registry_ok s" and ret: "on_connection throws url s = Returned s'"
  shows "registry_ok s'"
proof -
  let ?w = "next_ws s" and ?n = "roomName url"
  have nt: "\<not> throws ?w"
    using ret on_connection_throws [of throws s url] by auto
  have old: "c \<noteq> ?w" if "listeners s c = Some (n, r)" for c n r
    using ok_listener(1) [OF inv that] by simp
  show ?thesis
  proof (cases "rooms s ?n")
    case None
    let ?r = "next_set s"
    have s': "s' = s\<lparr>next_ws := Suc (next_ws s),
        readyState := (readyState s)(next_ws s := OPEN),
        sets := (sets s)(next_set s := [next_ws s]),
        next_set := Suc (next_set s),
        rooms := (rooms s)(roomName url \<mapsto> next_set s),
        sent := (sent s)(next_ws s := sent s (next_ws s) @ [status_frame]),
        listeners := (listeners s)(next_ws s \<mapsto> (roomName url, next_set s))\<rparr>"
      using ret on_connection_new_room [of s url throws] None nt by simp
    have f: "rooms s' = (rooms s)(?n \<mapsto> ?r)" "sets s' = (sets s)(?r := [?w])"
      "next_set s' = Suc ?r" "next_ws s' = Suc ?w"
      "listeners s' = (listeners s)(?w \<mapsto> (?n, ?r))"
      by (simp_all add: s')
    show ?thesis
    proof (rule registry_okI)
      fix name room
      assume a: "rooms s' name = Some room"
      show "room < next_set s' \<and> sets s' room \<noteq> [] \<and> distinct (sets s' room) \<and>
        (\<forall>c\<in>set (sets s' room). listeners s' c = Some (name, room))"
      proof (cases "name = ?n")
        case True
        with a have "room = ?r" by (simp add: f)
        with True show ?thesis by (simp add: f)
      next
        case False
        with a have b: "rooms s name = Some room" by (simp add: f)
        have lt: "room < ?r" by (rule ok_room(1) [OF inv b])
        then have "sets s' room = sets s room" by (simp add: f)
        moreover have "listeners s' c = Some (name, room)" if "c \<in> set (sets s room)" for c
        proof -
          have l: "listeners s c = Some (name, room)" by (rule ok_member [OF inv b that])
          then have "c \<noteq> ?w" by (rule old)
          with l show ?thesis by (simp add: f)
        qed
        ultimately show ?thesis
          using lt ok_room(2,3) [OF inv b] by (simp add: f)
      qed
    next
      fix c name room
      assume a: "listeners s' c = Some (name, room)"
      show "c < next_ws s' \<and> rooms s' name = Some room \<and> c \<in> set (sets s' room)"
      proof (cases "c = ?w")
        case True
        with a show ?thesis by (simp add: f)
      next
        case False
        with a have b: "listeners s c = Some (name, room)" by (simp add: f)
        have r: "rooms s name = Some room" by (rule ok_listener(2) [OF inv b])
        then have "name \<noteq> ?n" using None by auto
        moreover have "room \<noteq> ?r" using ok_room(1) [OF inv r] by simp
        ultimately show ?thesis
          using ok_listener [OF inv b] by (simp add: f)
      qed
    qed
  next
    case (Some room0)
    have s': "s' = s\<lparr>next_ws := Suc (next_ws s),
        readyState := (readyState s)(next_ws s := OPEN),
        sets := (sets s)(room0 := set_add (next_ws s) (sets s room0)),
        sent := (sent s)(next_ws s := sent s (next_ws s) @ [status_frame]),
        listeners := (listeners s)(next_ws s \<mapsto> (roomName url, room0))\<rparr>"
      using ret on_connection_old_room [of s url room0 throws] Some nt by simp
    have "?w \<notin> set (sets s room0)"
      using ok_member [OF inv Some, of ?w] old by blast
    then have add: "set_add ?w (sets s room0) = sets s room0 @ [?w]"
      by (simp add: set_add_def)
    have f: "rooms s' = rooms s" "sets s' = (sets s)(room0 := sets s room0 @ [?w])"
      "next_set s' = next_set s" "next_ws s' = Suc ?w"
      "listeners s' = (listeners s)(?w \<mapsto> (?n, room0))"
      by (simp_all add: s' add)
    show ?thesis
    proof (rule registry_okI)
      fix name room
      assume a: "rooms s' name = Some room"
      then have b: "rooms s name = Some room" by (simp add: f)
      have keep: "listeners s' c = Some (name, room)" if "c \<in> set (sets s room)" for c
      proof -
        have l: "listeners s c = Some (name, room)" by (rule ok_member [OF inv b that])
        then have "c \<noteq> ?w" by (rule old)
        with l show ?thesis by (simp add: f)
      qed
      show "room < next_set s' \<and> sets s' room \<noteq> [] \<and> distinct (sets s' room) \<and>
        (\<forall>c\<in>set (sets s' room). listeners s' c = Some (name, room))"
      proof (cases "room = room0")
        case True
        then have "name = ?n"
          using registry_ok_room_inj [OF inv b] Some by simp
        with True keep \<open>?w \<notin> set (sets s room0)\<close> show ?thesis
          using ok_room [OF inv b] by (simp add: f)
      next
        case False
        with keep show ?thesis
          using ok_room [OF inv b] by (simp add: f)
      qed
    next
      fix c name room
      assume a: "listeners s' c = Some (name, room)"
      show "c < next_ws s' \<and> rooms s' name = Some room \<and> c \<in> set (sets s' room)"
      proof (cases "c = ?w")
        case True
        with a Some show ?thesis by (simp add: f)
      next
        case False
        with a have b: "listeners s c = Some (name, room)" by (simp add: f)
        show ?thesis
          using ok_listener [OF inv b] by (cases "room = room0") (simp_all add: f)
      qed
    qed
  qed
qed

lemma on_close_no_listener: "listeners s ws = None \<Longrightarrow> on_close ws s = s"
  by (simp add: on_close_def)

lemma on_close_fields:
  assumes "listeners s ws = Some (name, room)"
  shows "sets (on_close ws s) = (sets s)(room := set_delete ws (sets s room))"
    and "rooms (on_close ws s) =
      (if set_delete ws (sets s room) = [] then (rooms s)(name := None) else rooms s)"
    and "listeners (on_close ws s) = listeners s"
    and "next_set (on_close ws s) = next_set s"
    and "next_ws (on_close ws s) = next_ws s"
    and "sent (on_close ws s) = sent s"
    and "readyState (on_close ws s) = readyState s"
  using assms by (simp_all add: on_close_def Let_def)

lemma set_set_delete: "set (set_delete x xs) = set xs - {x}"
  by (auto simp: set_delete_def)

lemma distinct_set_delete: "distinct xs \<Longrightarrow> distinct (set_delete x xs)"
  by (simp add: set_delete_def)

lemma set_delete_absent: "x \<notin> set xs \<Longrightarrow> set_delete x xs = xs"
  by (auto simp: set_delete_def filter_id_conv)

lemma close_ok:
  assumes inv: "registry_ok s"
  shows "registry_ok (let s' = on_close ws (s\<lparr>readyState := (readyState s)(ws := CLOSED)\<rparr>)
                      in s'\<lparr>listeners := (listeners s')(ws := None)\<rparr>)"
proof (cases "listeners s ws")
  case None
  then have "(listeners s)(ws := None) = listeners s"
    by (simp add: fun_upd_idem)
  with None have "(let s' = on_close ws (s\<lparr>readyState := (readyState s)(ws := CLOSED)\<rparr>)
      in s'\<lparr>listeners := (listeners s')(ws := None)\<rparr>)
    = s\<lparr>readyState := (readyState s)(ws := CLOSED)\<rparr>"
    by (simp add: on_close_no_listener Let_def)
  then show ?thesis
    using inv by (simp only: registry_ok_readyState)
next
  case (Some p)
  obtain name0 room0 where p: "p = (name0, room0)"
    by (cases p)
  let ?s0 = "s\<lparr>readyState := (readyState s)(ws := CLOSED)\<rparr>"
  let ?c = "on_close ws ?s0"
  let ?t = "?c\<lparr>listeners := (listeners ?c)(ws := None)\<rparr>"
  have l0: "listeners ?s0 ws = Some (name0, room0)"
    using Some p by simp
  have lw: "listeners s ws = Some (name0, room0)"
    using Some p by simp
  have r0: "rooms s name0 = Some room0" and m0: "ws \<in> set (sets s room0)"
    using ok_listener [OF inv lw] by simp_all
  have f: "sets ?t = (sets s)(room0 := set_delete ws (sets s room0))"
    "rooms ?t = (if set_delete ws (sets s room0) = [] then (rooms s)(name0 := None) else rooms s)"
    "listeners ?t = (listeners s)(ws := None)"
    "next_set ?t = next_set s" "next_ws ?t = next_ws s"
    using on_close_fields [OF l0] by simp_all
  have "registry_ok ?t"
  proof (rule registry_okI)
    fix name room
    assume a: "rooms ?t name = Some room"
    then have b: "rooms s name = Some room"
      by (simp add: f split: if_splits)
    show "room < next_set ?t \<and> sets ?t room \<noteq> [] \<and> distinct (sets ?t room) \<and>
        (\<forall>c\<in>set (sets ?t room). listeners ?t c = Some (name, room))"
    proof (cases "room = room0")
      case True
      then have n: "name = name0"
        using registry_ok_room_inj [OF inv b] r0 by simp
      have ne: "set_delete ws (sets s room0) \<noteq> []"
        using a n by (auto simp: f split: if_splits)
      have "listeners ?t c = Some (name, room)" if "c \<in> set (set_delete ws (sets s room0))" for c
      proof -
        from that have "c \<in> set (sets s room0)" and "c \<noteq> ws"
          by (simp_all add: set_set_delete)
        then show ?thesis
          using ok_member [OF inv r0, of c] True n by (simp add: f)
      qed
      then show ?thesis
        using True ne ok_room(1,3) [OF inv r0] by (simp add: f distinct_set_delete)
    next
      case False
      have nw: "ws \<notin> set (sets s room)"
      proof
        assume "ws \<in> set (sets s room)"
        then have "listeners s ws = Some (name, room)"
          by (rule ok_member [OF inv b])
        with lw False show False by simp
      qed
      have "listeners ?t c = Some (name, room)" if "c \<in> set (sets s room)" for c
      proof -
        have "listeners s c = Some (name, room)"
          by (rule ok_member [OF inv b that])
        moreover have "c \<noteq> ws"
          using that nw by auto
        ultimately show ?thesis by (simp add: f)
      qed
      then show ?thesis
        using False ok_room [OF inv b] by (simp add: f)
    qed
  next
    fix c name room
    assume a: "listeners ?t c = Some (name, room)"
    then have cw: "c \<noteq> ws" and b: "listeners s c = Some (name, room)"
      by (simp_all add: f split: if_splits)
    have r: "rooms s name = Some room" and m: "c \<in> set (sets s room)" and lt: "c < next_ws s"
      using ok_listener [OF inv b] by simp_all
    have m': "c \<in> set (sets ?t room)"
      using m cw by (cases "room = room0") (simp_all add: f set_set_delete)
    have "rooms ?t name = Some room"
    proof (cases "room = room0")
      case True
      then have "name = name0"
        using registry_ok_room_inj [OF inv r] r0 by simp
      moreover have "set_delete ws (sets s room0) \<noteq> []"
        using m cw True by (auto simp: set_delete_def filter_empty_conv)
      ultimately show ?thesis
        using r by (simp add: f)
    next
      case False
      then have "name \<noteq> name0"
        using r r0 by auto
      then show ?thesis
        using r by (simp add: f)
    qed
    with m' lt show "c < next_ws ?t \<and> rooms ?t name = Some room \<and> c \<in> set (sets ?t room)"
      by (simp add: f)
  qed
  then show ?thesis
    by (simp add: Let_def)
qed

lemma step_ok:
  assumes "registry_ok s" and "step throws e s = Returned s'"
  shows "registry_ok s'"
proof (cases e)
  case (Connection url)
  with assms show ?thesis
    using on_connection_ok [of s throws url s'] by simp
next
  case (Message ws m)
  with assms(2) have "state_of (on_message throws ws m s) = s'"
    by simp
  then show ?thesis
    using on_message_ok [OF assms(1), of throws ws m] by simp
next
  case (Closing ws)
  with assms show ?thesis by auto
next
  case (Close ws)
  with assms(2) have "s' = (let t = on_close ws (s\<lparr>readyState := (readyState s)(ws := CLOSED)\<rparr>)
                      in t\<lparr>listeners := (listeners t)(ws := None)\<rparr>)"
    by simp
  then show ?thesis
    using close_ok [OF assms(1), of ws] by simp
next
  case (Error ws)
  with assms show ?thesis by simp
qed

lemma run_ok:
  "registry_ok s \<Longrightarrow> run es s = Returned s' \<Longrightarrow> registry_ok s'"
proof (induction es arbitrary: s)
  case Nil
  then show ?case by simp
next
  case (Cons a es)
  obtain throws e where a: "a = (throws, e)"
    by (cases a)
  show ?case
  proof (cases "step throws e s")
    case (Returned t)
    then have "registry_ok t"
      using step_ok [OF Cons.prems(1)] by simp
    moreover have "run es t = Returned s'"
      using Cons.prems(2) a Returned by simp
    ultimately show ?thesis
      by (rule Cons.IH)
  next
    case (Thrown t)
    with Cons.prems(2) a show ?thesis by simp
  qed
qed

lemma reachable_ok: "run es initial = Returned s \<Longrightarrow> registry_ok s"
  using registry_ok_initial by (rule run_ok)

section \<open>The fan-out of a frame\<close>

lemma forEach_send_append:
  "forEach_send throws ws m (xs @ ys) s =
     (case forEach_send throws ws m xs s of
        Thrown s' \<Rightarrow> Thrown s'
      | Returned s' \<Rightarrow> forEach_send throws ws m ys s')"
proof (induction xs arbitrary: s)
  case Nil
  show ?case by simp
next
  case (Cons c cs)
  show ?case
    by (simp add: send_cases Cons.IH)
qed

lemma forEach_send_returns:
  assumes "distinct cs"
    and "\<forall>c\<in>set cs. c \<noteq> ws \<and> readyState s c = OPEN \<longrightarrow> \<not> throws c"
  shows "forEach_send throws ws m cs s = Returned
     (s\<lparr>sent := (\<lambda>c. if c \<in> set cs \<and> c \<noteq> ws \<and> readyState s c = OPEN
                        then sent s c @ [m] else sent s c)\<rparr>)"
  using assms
proof (induction cs arbitrary: s)
  case Nil
  show ?case by simp
next
  case (Cons c cs)
  show ?case
  proof (cases "c \<noteq> ws \<and> readyState s c = OPEN")
    case False
    have "forEach_send throws ws m cs s = Returned
     (s\<lparr>sent := (\<lambda>c. if c \<in> set cs \<and> c \<noteq> ws \<and> readyState s c = OPEN
                        then sent s c @ [m] else sent s c)\<rparr>)"
      using Cons.prems by (intro Cons.IH) simp_all
    moreover have "(\<lambda>x. if x \<in> set cs \<and> x \<noteq> ws \<and> readyState s x = OPEN
                        then sent s x @ [m] else sent s x)
       = (\<lambda>x. if x \<in> set (c # cs) \<and> x \<noteq> ws \<and> readyState s x = OPEN
                        then sent s x @ [m] else sent s x)"
      using False by auto
    moreover have "forEach_send throws ws m (c # cs) s = forEach_send throws ws m cs s"
      using False by auto
    ultimately show ?thesis
      by (simp only:)
  next
    case True
    let ?s1 = "s\<lparr>sent := (sent s)(c := sent s c @ [m])\<rparr>"
    have nt: "\<not> throws c"
      using Cons.prems(2) True by simp
    let ?F1 = "\<lambda>x. if x \<in> set cs \<and> x \<noteq> ws \<and> readyState ?s1 x = OPEN
                        then sent ?s1 x @ [m] else sent ?s1 x"
    let ?F = "\<lambda>x. if x \<in> set (c # cs) \<and> x \<noteq> ws \<and> readyState s x = OPEN
                        then sent s x @ [m] else sent s x"
    have a: "forEach_send throws ws m cs ?s1 = Returned (?s1\<lparr>sent := ?F1\<rparr>)"
      using Cons.prems by (intro Cons.IH) simp_all
    have b: "?F1 = ?F"
      using True Cons.prems(1) by auto
    have c: "?s1\<lparr>sent := ?F\<rparr> = s\<lparr>sent := ?F\<rparr>"
      by simp
    have d: "forEach_send throws ws m (c # cs) s = forEach_send throws ws m cs ?s1"
      using True nt by (simp add: send_cases)
    show ?thesis
      by (simp only: d a b c)
  qed
qed

lemma forEach_send_raises:
  assumes "c \<noteq> ws" and "readyState s c = OPEN" and "throws c"
  shows "forEach_send throws ws m (c # ys) s = Thrown s"
  using assms by (simp add: send_cases)

lemma forEach_send_stops:
  assumes "distinct xs"
    and "\<forall>x\<in>set xs. x \<noteq> ws \<and> readyState s x = OPEN \<longrightarrow> \<not> throws x"
    and "c \<noteq> ws" and "readyState s c = OPEN" and "throws c"
  shows "forEach_send throws ws m (xs @ c # ys) s = Thrown
     (s\<lparr>sent := (\<lambda>x. if x \<in> set xs \<and> x \<noteq> ws \<and> readyState s x = OPEN
                        then sent s x @ [m] else sent s x)\<rparr>)"
proof -
  let ?s1 = "s\<lparr>sent := (\<lambda>x. if x \<in> set xs \<and> x \<noteq> ws \<and> readyState s x = OPEN
                        then sent s x @ [m] else sent s x)\<rparr>"
  have "forEach_send throws ws m xs s = Returned ?s1"
    using assms(1,2) by (rule forEach_send_returns)
  moreover have "forEach_send throws ws m (c # ys) ?s1 = Thrown ?s1"
    using assms(3-5) by (intro forEach_send_raises) simp_all
  ultimately show ?thesis
    by (simp add: forEach_send_append)
qed

lemma forEach_send_skips:
  assumes "c = ws \<or> readyState s c \<noteq> OPEN"
  shows "forEach_send throws ws m (xs @ c # ys) s = forEach_send throws ws m (xs @ ys) s"
proof -
  have "forEach_send throws ws m (c # ys) t = forEach_send throws ws m ys t"
    if "readyState t = readyState s" for t
    using assms that by auto
  moreover have "readyState t = readyState s" if "forEach_send throws ws m xs s = Returned t" for t
  proof -
    obtain f where "state_of (forEach_send throws ws m xs s) = s\<lparr>sent := f\<rparr>"
      using forEach_send_only_sent by blast
    with that show ?thesis by simp
  qed
  ultimately show ?thesis
    by (simp add: forEach_send_append split: completion.split)
qed

lemma ok_listener_set:
  assumes "registry_ok s" and "listeners s c = Some (name, room)"
  shows "room < next_set s"
  using ok_room(1) [OF assms(1) ok_listener(2) [OF assms]] .

section \<open>The room of a connection\<close>

lemma split_at_first_slash:
  assumes "slash \<notin> set pre"
  shows "split slash (pre @ slash # xs) = pre # split slash xs"
  using assms by (rule split_segment)

lemma roomName_between_slashes:
  assumes "slash \<notin> set pre" and "slash \<notin> set seg"
  shows "roomName (pre @ slash # seg) = (if seg = [] then default_room else seg)"
    and "roomName (pre @ slash # seg @ slash # rest) = (if seg = [] then default_room else seg)"
    and "roomName pre = default_room"
proof -
  have "split slash (pre @ slash # seg) = [pre, seg]"
    using assms by (simp add: split_segment split_no_sep)
  then show "roomName (pre @ slash # seg) = (if seg = [] then default_room else seg)"
    by (simp add: roomName_def index_def truthy_def)
  have "split slash (pre @ slash # seg @ slash # rest) = pre # seg # split slash rest"
    using assms by (simp add: split_segment)
  then show "roomName (pre @ slash # seg @ slash # rest) = (if seg = [] then default_room else seg)"
    by (simp add: roomName_def index_def truthy_def)
  have "split slash pre = [pre]"
    using assms(1) by (rule split_no_sep)
  then show "roomName pre = default_room"
    by (simp add: roomName_def index_def)
qed

text \<open>
  C6, as stated, fails. The room name is cut out of the text of \<open>req.url\<close>, which carries
  the query string: for the URL \<open>/?room=a\<close>, whose path is just \<open>/\<close>, the room is
  \<open>?room=a\<close> and not the default room, and the URLs \<open>/r?token=1\<close> and \<open>/r\<close>, which have
  the same path, give different rooms.
\<close>

theorem query_string_is_part_of_roomName:
  "roomName (of_ascii ''/?room=a'') = of_ascii ''?room=a'' \<and>
   roomName (of_ascii ''/?room=a'') \<noteq> default_room \<and>
   roomName (of_ascii ''/'') = default_room \<and>
   roomName (of_ascii ''/r?token=1'') = of_ascii ''r?token=1'' \<and>
   roomName (of_ascii ''/r'') = of_ascii ''r'' \<and>
   roomName (of_ascii ''/r?token=1'') \<noteq> roomName (of_ascii ''/r'')"
  by (simp add: roomName_def default_room_def of_ascii_def slash_def index_def truthy_def)

text \<open>
  C6, amended. The room of a connection is the text of the request URL, query string
  included, between its first slash and the next slash or the end of the URL; when that
  text is empty, or the URL has no slash (the empty URL among them), the room is
  \<open>default-room\<close>. A request URL begins with its first slash (\<open>pre\<close> is empty), so the room
  is the text after the leading slash; the URL \<open>/\<close> gives the default room.
\<close>

theorem roomName_is_text_between_first_two_slashes:
  assumes "slash \<notin> set pre" and "slash \<notin> set seg"
  shows "roomName (pre @ slash # seg) = (if seg = [] then default_room else seg) \<and>
         roomName (pre @ slash # seg @ slash # rest) = (if seg = [] then default_room else seg) \<and>
         roomName pre = default_room \<and>
         roomName [slash] = default_room \<and>
         roomName [] = default_room \<and>
         default_room = of_ascii ''default-room''"
proof -
  have "roomName [slash] = default_room"
    using roomName_between_slashes(1) [of "[]" "[]"] by simp
  moreover have "roomName [] = default_room"
    using roomName_between_slashes(3) [of "[]" "[]"] by simp
  ultimately show ?thesis
    using roomName_between_slashes [OF assms] by (simp add: default_room_def)
qed

theorem roomName_is_text_between_first_two_slashes_witness:
  "roomName (of_ascii ''/edit-together-doc'') = of_ascii ''edit-together-doc'' \<and>
   roomName (of_ascii ''/edit-together-doc/x'') = of_ascii ''edit-together-doc'' \<and>
   roomName (of_ascii ''/r?token=1'') = of_ascii ''r?token=1'' \<and>
   roomName (of_ascii ''/r?token=1/x'') = of_ascii ''r?token=1'' \<and>
   roomName (of_ascii ''http://host/r'') = of_ascii ''default-room'' \<and>
   roomName (of_ascii ''http:'') = of_ascii ''default-room'' \<and>
   roomName (of_ascii ''/'') = of_ascii ''default-room'' \<and>
   roomName (of_ascii '''') = of_ascii ''default-room''"
proof -
  have h: "slash \<notin> set []" "slash \<notin> set (of_ascii ''edit-together-doc'')"
    "slash \<notin> set (of_ascii ''r?token=1'')" "slash \<notin> set (of_ascii ''http:'')"
    by (simp_all add: slash_def of_ascii_def)
  have u: "of_ascii ''/edit-together-doc'' = [] @ slash # of_ascii ''edit-together-doc''"
    "of_ascii ''/edit-together-doc/x'' =
       [] @ slash # of_ascii ''edit-together-doc'' @ slash # of_ascii ''x''"
    "of_ascii ''/r?token=1'' = [] @ slash # of_ascii ''r?token=1''"
    "of_ascii ''/r?token=1/x'' = [] @ slash # of_ascii ''r?token=1'' @ slash # of_ascii ''x''"
    "of_ascii ''http://host/r'' = of_ascii ''http:'' @ slash # [] @ slash # of_ascii ''host/r''"
    "of_ascii ''/'' = [slash]" "of_ascii '''' = []"
    by (simp_all add: slash_def of_ascii_def)
  have n: "of_ascii ''edit-together-doc'' \<noteq> []" "of_ascii ''r?token=1'' \<noteq> []"
    by (simp_all add: of_ascii_def)
  note a = roomName_is_text_between_first_two_slashes
    [OF h(1,2), where rest = "of_ascii ''x''"]
  note b = roomName_is_text_between_first_two_slashes
    [OF h(1,3), where rest = "of_ascii ''x''"]
  note c = roomName_is_text_between_first_two_slashes
    [OF h(4,1), where rest = "of_ascii ''host/r''"]
  show ?thesis
    unfolding u using a b c n by simp
qed

section \<open>The list of recent changes\<close>

text \<open>
  C4. Recording a change puts it first and keeps at most ten entries: the new list is the
  change followed by the first nine of the old ones. The history is rendered in the order
  of the list, newest first: recording eleven changes \<open>f 1\<close>, ..., \<open>f 11\<close> in this order into
  the empty list leaves \<open>f 11\<close>, \<open>f 10\<close>, ..., \<open>f 2\<close>, and with ids \<open>1\<close>, ..., \<open>11\<close> the
  rendered keys are \<open>11\<close>, \<open>10\<close>, ..., \<open>2\<close>.
\<close>

theorem record_change_newest_first_at_most_ten:
  "length (record_change c s) \<le> 10 \<and>
   record_change c s = c # take 9 s \<and>
   ChangeHistory (record_change c s) = render_item c # ChangeHistory (take 9 s) \<and>
   foldl (\<lambda>s c. record_change c s) [] (map f [1, 2, 3, 4, 5, 6, 7, 8, 9, 10, 11 :: int])
     = map f [11, 10, 9, 8, 7, 6, 5, 4, 3, 2] \<and>
   map item_key (ChangeHistory (foldl (\<lambda>s c. record_change c s) []
       (map (\<lambda>i. \<lparr>change_id = toString i, user = u, userColor = col, content = txt i,
                    timestamp = t i\<rparr>) [1, 2, 3, 4, 5, 6, 7, 8, 9, 10, 11])))
     = map toString [11, 10, 9, 8, 7, 6, 5, 4, 3, 2]"
proof -
  have a: "record_change c s = c # take 9 s" for c s
    by (simp add: record_change_def)
  have b: "foldl (\<lambda>s c. record_change c s) [] (map g [1, 2, 3, 4, 5, 6, 7, 8, 9, 10, 11 :: int])
     = map g [11, 10, 9, 8, 7, 6, 5, 4, 3, 2]" for g
    by (simp add: a)
  have "length (record_change c s) \<le> 10"
    by (simp add: a)
  moreover have "ChangeHistory (record_change c s) = render_item c # ChangeHistory (take 9 s)"
    by (simp add: a ChangeHistory_def)
  moreover have "map item_key (ChangeHistory (foldl (\<lambda>s c. record_change c s) []
       (map (\<lambda>i. \<lparr>change_id = toString i, user = u, userColor = col, content = txt i,
                    timestamp = t i\<rparr>) [1, 2, 3, 4, 5, 6, 7, 8, 9, 10, 11])))
     = map toString [11, 10, 9, 8, 7, 6, 5, 4, 3, 2]"
    by (simp only: b) (simp add: ChangeHistory_def render_item_def)
  ultimately show ?thesis
    using a b by blast
qed

section \<open>The session of three clients\<close>

lemma roomName_url_r: "roomName url_r = room_r"
  by (simp add: url_r_def room_r_def roomName_def of_ascii_def slash_def index_def truthy_def)

lemma run_three_join: "run three_join initial = Returned three_joined"
  by (simp add: three_join_def three_joined_def roomName_url_r no_fault_def initial_def
      on_connection_def init_room_def send_def set_add_def Let_def numeral_2_eq_2 numeral_3_eq_3)

lemma run_append:
  "run (es @ es') s =
     (case run es s of Thrown t \<Rightarrow> Thrown t | Returned t \<Rightarrow> run es' t)"
proof (induction es arbitrary: s)
  case Nil
  show ?case by simp
next
  case (Cons a es)
  obtain throws e where "a = (throws, e)"
    by (cases a)
  with Cons.IH show ?case
    by (simp split: completion.split)
qed

lemma run_one_closing: "run then_closing initial = Returned one_closing"
  by (simp add: then_closing_def run_append run_three_join one_closing_def)
    (simp add: three_joined_def)

lemma connect_initial: "on_connection no_fault url_r initial = Returned one_joined"
  by (simp add: one_joined_def roomName_url_r no_fault_def initial_def
      on_connection_def init_room_def send_def set_add_def Let_def)

lemma run_one_joined: "run [(no_fault, Connection url_r)] initial = Returned one_joined"
  by (simp add: connect_initial)

section \<open>Properties of the relay\<close>

lemma forEach_send_prefix:
  assumes "distinct cs"
  shows "\<exists>xs ys. cs = xs @ ys \<and> state_of (forEach_send throws ws m cs s) =
     s\<lparr>sent := (\<lambda>x. if x \<in> set xs \<and> x \<noteq> ws \<and> readyState s x = OPEN
                        then sent s x @ [m] else sent s x)\<rparr>"
proof (cases "\<exists>c\<in>set cs. c \<noteq> ws \<and> readyState s c = OPEN \<and> throws c")
  case False
  then have "\<forall>c\<in>set cs. c \<noteq> ws \<and> readyState s c = OPEN \<longrightarrow> \<not> throws c"
    by blast
  with assms have "forEach_send throws ws m cs s = Returned
     (s\<lparr>sent := (\<lambda>c. if c \<in> set cs \<and> c \<noteq> ws \<and> readyState s c = OPEN
                        then sent s c @ [m] else sent s c)\<rparr>)"
    by (rule forEach_send_returns)
  then have "cs = cs @ [] \<and> state_of (forEach_send throws ws m cs s) =
     s\<lparr>sent := (\<lambda>x. if x \<in> set cs \<and> x \<noteq> ws \<and> readyState s x = OPEN
                        then sent s x @ [m] else sent s x)\<rparr>"
    by simp
  then show ?thesis by blast
next
  case True
  then obtain xs c ys where cs: "cs = xs @ c # ys"
    and c: "c \<noteq> ws \<and> readyState s c = OPEN \<and> throws c"
    and xs: "\<forall>x\<in>set xs. \<not> (x \<noteq> ws \<and> readyState s x = OPEN \<and> throws x)"
    using split_list_first_prop [of cs "\<lambda>c. c \<noteq> ws \<and> readyState s c = OPEN \<and> throws c"]
    by blast
  have "distinct xs"
    using assms cs by simp
  moreover have "\<forall>x\<in>set xs. x \<noteq> ws \<and> readyState s x = OPEN \<longrightarrow> \<not> throws x"
    using xs by blast
  ultimately have "forEach_send throws ws m (xs @ c # ys) s = Thrown
     (s\<lparr>sent := (\<lambda>x. if x \<in> set xs \<and> x \<noteq> ws \<and> readyState s x = OPEN
                        then sent s x @ [m] else sent s x)\<rparr>)"
    using c by (intro forEach_send_stops) simp_all
  then have "cs = xs @ (c # ys) \<and> state_of (forEach_send throws ws m cs s) =
     s\<lparr>sent := (\<lambda>x. if x \<in> set xs \<and> x \<noteq> ws \<and> readyState s x = OPEN
                        then sent s x @ [m] else sent s x)\<rparr>"
    using cs by simp
  then show ?thesis by blast
qed

lemma member_listener:
  assumes "run es initial = Returned s" and "rooms s name = Some room"
    and "A \<in> set (sets s room)"
  shows "listeners s A = Some (name, room)" and "distinct (sets s room)"
proof -
  have inv: "registry_ok s"
    using assms(1) by (rule reachable_ok)
  show "listeners s A = Some (name, room)"
    by (rule ok_member [OF inv assms(2,3)])
  show "distinct (sets s room)"
    by (rule ok_room(3) [OF inv assms(2)])
qed

text \<open>
  C1. In a state the relay reaches between two events, let \<open>A\<close> be a member of the room
  registered under \<open>name\<close>. When no \<open>send\<close> raises, the \<open>message\<close> handler of \<open>A\<close> on
  a frame \<open>m\<close> returns, and it has appended exactly \<open>m\<close> to the frames sent to every other
  member of that room whose socket is \<open>OPEN\<close>, and nothing to anyone else. Whatever
  \<open>send\<close> does, nothing is sent to \<open>A\<close> itself.
\<close>

theorem message_forwarded_to_other_open_members:
  assumes "run es initial = Returned s"
    and "rooms s name = Some room" and "A \<in> set (sets s room)"
    and "\<forall>c\<in>set (sets s room). c \<noteq> A \<and> readyState s c = OPEN \<longrightarrow> \<not> throws c"
  shows "on_message throws A m s = Returned
           (s\<lparr>sent := (\<lambda>c. if c \<in> set (sets s room) \<and> c \<noteq> A \<and> readyState s c = OPEN
                              then sent s c @ [m] else sent s c)\<rparr>) \<and>
         sent (state_of (on_message throws' A m s)) A = sent s A"
proof -
  have l: "listeners s A = Some (name, room)" and d: "distinct (sets s room)"
    using member_listener [OF assms(1-3)] by simp_all
  have "forEach_send throws A m (sets s room) s = Returned
           (s\<lparr>sent := (\<lambda>c. if c \<in> set (sets s room) \<and> c \<noteq> A \<and> readyState s c = OPEN
                              then sent s c @ [m] else sent s c)\<rparr>)"
    using d assms(4) by (rule forEach_send_returns)
  moreover obtain xs ys where "state_of (forEach_send throws' A m (sets s room) s) =
     s\<lparr>sent := (\<lambda>x. if x \<in> set xs \<and> x \<noteq> A \<and> readyState s x = OPEN
                        then sent s x @ [m] else sent s x)\<rparr>"
    using forEach_send_prefix [OF d, of throws' A m s] by blast
  ultimately show ?thesis
    using l by (simp add: on_message_def)
qed

theorem message_forwarded_to_other_open_members_witness:
  "run then_closing initial = Returned one_closing \<and>
   rooms one_closing room_r = Some 0 \<and> sets one_closing 0 = [0, 1, 2] \<and>
   readyState one_closing 1 = CLOSING \<and> readyState one_closing 2 = OPEN \<and>
   sent (state_of (on_message no_fault 0 frame_hi one_closing)) 0 = [status_frame] \<and>
   sent (state_of (on_message no_fault 0 frame_hi one_closing)) 1 = [status_frame] \<and>
   sent (state_of (on_message no_fault 0 frame_hi one_closing)) 2 = [status_frame, frame_hi]"
proof -
  have r: "rooms one_closing room_r = Some 0" and m: "0 \<in> set (sets one_closing 0)"
    and n: "\<forall>c\<in>set (sets one_closing 0).
      c \<noteq> 0 \<and> readyState one_closing c = OPEN \<longrightarrow> \<not> no_fault c"
    by (simp_all add: one_closing_def three_joined_def no_fault_def)
  have f: "sets one_closing 0 = [0, 1, 2]" "readyState one_closing 0 = OPEN"
    "readyState one_closing 1 = CLOSING" "readyState one_closing 2 = OPEN"
    "sent one_closing 0 = [status_frame]" "sent one_closing 1 = [status_frame]"
    "sent one_closing 2 = [status_frame]"
    by (simp_all add: one_closing_def three_joined_def)
  note g = f [unfolded One_nat_def]
  have "sent (state_of (on_message no_fault 0 frame_hi one_closing)) =
    (\<lambda>c. if c \<in> set (sets one_closing 0) \<and> c \<noteq> 0 \<and> readyState one_closing c = OPEN
         then sent one_closing c @ [frame_hi] else sent one_closing c)"
    using message_forwarded_to_other_open_members
      [OF run_one_closing r m n, of frame_hi no_fault]
    by simp
  then show ?thesis
    by (simp add: f g r run_one_closing)
qed

lemma step_close_one_joined: "step no_fault (Close 0) one_joined = Returned one_left"
  by (simp add: one_joined_def one_left_def on_close_def set_delete_def Let_def
      fun_upd_idem_iff)

lemma run_join_leave: "run join_leave initial = Returned one_left"
proof -
  have "step no_fault (Connection url_r) initial = Returned one_joined"
    by (simp add: connect_initial)
  then show ?thesis
    by (simp add: join_leave_def step_close_one_joined del: step.simps)
qed

text \<open>
  C2. In every state the relay reaches between two events, no entry of the registry has an
  empty member set. When the only member of a room closes, the \<open>close\<close> handler removes
  the entry of the room. A connection to a room name that has no entry allocates a new
  \<open>Set\<close>, which no entry and no handler holds and which is empty when it is registered,
  and the connection is then its only member.
\<close>

theorem no_empty_room_in_registry:
  assumes "run es initial = Returned s"
  shows "(rooms s name = Some room \<longrightarrow> sets s room \<noteq> []) \<and>
         (listeners s ws = Some (name, room) \<and> set (sets s room) = {ws} \<longrightarrow>
            rooms (state_of (step throws (Close ws) s)) name = None) \<and>
         (rooms s (roomName url) = None \<and> \<not> throws (next_ws s) \<longrightarrow>
            (let s0 = s\<lparr>next_ws := Suc (next_ws s),
                           readyState := (readyState s)(next_ws s := OPEN)\<rparr>;
                 s1 = init_room (roomName url) s0
             in rooms s1 (roomName url) = Some (next_set s) \<and>
                sets s1 (next_set s) = [] \<and>
                (\<forall>n. rooms s n \<noteq> Some (next_set s)) \<and>
                (\<forall>c n. listeners s c \<noteq> Some (n, next_set s)) \<and>
                (\<exists>s'. on_connection throws url s = Returned s' \<and>
                   rooms s' (roomName url) = Some (next_set s) \<and>
                   sets s' (next_set s) = [next_ws s])))"
proof -
  have inv: "registry_ok s"
    using assms by (rule reachable_ok)
  have a: "rooms s name = Some room \<longrightarrow> sets s room \<noteq> []"
    using ok_room(2) [OF inv] by blast
  have b: "rooms (state_of (step throws (Close ws) s)) name = None"
    if l: "listeners s ws = Some (name, room)" and o: "set (sets s room) = {ws}"
  proof -
    let ?s0 = "s\<lparr>readyState := (readyState s)(ws := CLOSED)\<rparr>"
    have l0: "listeners ?s0 ws = Some (name, room)"
      using l by simp
    have "set (set_delete ws (sets s room)) = {}"
      using o by (simp add: set_set_delete)
    then have "set_delete ws (sets ?s0 room) = []"
      by simp
    then have "rooms (on_close ws ?s0) = (rooms s)(name := None)"
      using on_close_fields(1,2) [OF l0] by simp
    then show ?thesis
      by (simp add: Let_def)
  qed
  have fresh1: "rooms s n \<noteq> Some (next_set s)" for n
    using ok_room(1) [OF inv, of n "next_set s"] by auto
  have fresh2: "listeners s c \<noteq> Some (n, next_set s)" for c n
    using ok_listener_set [OF inv, of c n "next_set s"] by auto
  have c: "let s0 = s\<lparr>next_ws := Suc (next_ws s),
                           readyState := (readyState s)(next_ws s := OPEN)\<rparr>;
                 s1 = init_room (roomName url) s0
             in rooms s1 (roomName url) = Some (next_set s) \<and>
                sets s1 (next_set s) = [] \<and>
                (\<forall>n. rooms s n \<noteq> Some (next_set s)) \<and>
                (\<forall>c n. listeners s c \<noteq> Some (n, next_set s)) \<and>
                (\<exists>s'. on_connection throws url s = Returned s' \<and>
                   rooms s' (roomName url) = Some (next_set s) \<and>
                   sets s' (next_set s) = [next_ws s])"
    if n: "rooms s (roomName url) = None" and t: "\<not> throws (next_ws s)"
    using fresh1 fresh2 n t on_connection_new_room [of s url throws]
    by (simp add: Let_def init_room_def)
  from a b c show ?thesis
    by blast
qed

theorem no_empty_room_in_registry_witness:
  "run [(no_fault, Connection url_r)] initial = Returned one_joined \<and>
   rooms one_joined room_r = Some 0 \<and> sets one_joined 0 = [0] \<and>
   listeners one_joined 0 = Some (room_r, 0) \<and>
   step no_fault (Close 0) one_joined = Returned one_left \<and>
   rooms one_left room_r = None \<and>
   run join_leave initial = Returned one_left \<and>
   roomName url_r = room_r \<and> next_set one_left = 1 \<and> next_ws one_left = 1 \<and>
   (\<exists>s'. on_connection no_fault url_r one_left = Returned s' \<and>
      rooms s' room_r = Some 1 \<and> sets s' 1 = [1])"
proof -
  have f: "rooms one_joined room_r = Some 0" "sets one_joined 0 = [0]"
    "listeners one_joined 0 = Some (room_r, 0)" "set (sets one_joined 0) = {0}"
    by (simp_all add: one_joined_def)
  have g: "rooms one_left (roomName url_r) = None" "\<not> no_fault (next_ws one_left)"
    "next_set one_left = 1" "next_ws one_left = 1"
    by (simp_all add: one_left_def no_fault_def)
  have "rooms (state_of (step no_fault (Close 0) one_joined)) room_r = None"
    using no_empty_room_in_registry [OF run_one_joined, of room_r 0 0 no_fault url_r] f
    by blast
  then have 1: "rooms one_left room_r = None"
    by (simp only: step_close_one_joined state_of.simps)
  have 2: "\<exists>s'. on_connection no_fault url_r one_left = Returned s' \<and>
      rooms s' room_r = Some 1 \<and> sets s' 1 = [1]"
    using no_empty_room_in_registry [OF run_join_leave, of room_r 0 0 no_fault url_r] g
    by (simp add: Let_def roomName_url_r)
  show ?thesis
    using 1 2 f g run_one_joined run_join_leave step_close_one_joined roomName_url_r
    by simp
qed




section \<open>The login form\<close>

text \<open>
  C10. Submitting the login form calls \<open>onLogin\<close> only when the input has a code unit that
  is not white space, and then with the input stripped of its leading and trailing white
  space: a name that is not empty, neither starts nor ends with white space and is left
  unchanged by \<open>trim\<close>, which becomes the user name. On an empty or all-white-space input
  \<open>onLogin\<close> is not called and the component is unchanged.
\<close>

theorem login_passes_trimmed_nonblank_name:
  "((\<forall>c\<in>set input. is_ws c) \<longrightarrow>
      handleSubmit input = None \<and> submit_login input s = s) \<and>
   ((\<exists>c\<in>set input. \<not> is_ws c) \<longrightarrow>
      handleSubmit input = Some (trim input) \<and>
      trim input \<noteq> [] \<and> \<not> is_ws (hd (trim input)) \<and> \<not> is_ws (last (trim input)) \<and>
      trim (trim input) = trim input \<and>
      (\<exists>pre post. input = pre @ trim input @ post \<and>
         (\<forall>c\<in>set pre. is_ws c) \<and> (\<forall>c\<in>set post. is_ws c)) \<and>
      username (submit_login input s) = trim input)"
proof (intro conjI impI)
  assume "\<forall>c\<in>set input. is_ws c"
  then have "trim input = []"
    by (simp only: trim_Nil_iff)
  then show "handleSubmit input = None" and "submit_login input s = s"
    by (simp_all add: handleSubmit_def submit_login_def truthy_def)
next
  assume "\<exists>c\<in>set input. \<not> is_ws c"
  then have ne: "trim input \<noteq> []"
    by (simp only: trim_Nil_iff) blast
  then show h: "handleSubmit input = Some (trim input)"
    by (simp add: handleSubmit_def truthy_def)
  show "trim input \<noteq> []"
    by (rule ne)
  show "\<not> is_ws (hd (trim input))" and "\<not> is_ws (last (trim input))"
    using ne by (rule trim_ends)+
  show "trim (trim input) = trim input"
    by (rule trim_idem)
  show "\<exists>pre post. input = pre @ trim input @ post \<and>
         (\<forall>c\<in>set pre. is_ws c) \<and> (\<forall>c\<in>set post. is_ws c)"
    by (rule trim_decomp)
  show "username (submit_login input s) = trim input"
    by (simp add: submit_login_def h handleLogin_def)
qed

lemma trim_Ada: "trim (of_ascii '' Ada '') = of_ascii ''Ada''"
  by (simp add: trim_def of_ascii_def is_ws_def)

theorem login_passes_trimmed_nonblank_name_witness:
  "handleSubmit (of_ascii '' Ada '') = Some (of_ascii ''Ada'') \<and>
   username (submit_login (of_ascii '' Ada '') (mount [])) = of_ascii ''Ada'' \<and>
   handleSubmit (of_ascii ''   '') = None \<and>
   submit_login (of_ascii ''   '') (mount []) = mount [] \<and>
   handleSubmit [] = None"
proof -
  have 1: "\<exists>c\<in>set (of_ascii '' Ada ''). \<not> is_ws c"
    by (simp add: of_ascii_def is_ws_def)
  have 2: "\<forall>c\<in>set (of_ascii ''   ''). is_ws c"
    by (simp add: of_ascii_def is_ws_def)
  have 3: "\<forall>c\<in>set ([] :: jsstring). is_ws c"
    by simp
  show ?thesis
    using login_passes_trimmed_nonblank_name [of "of_ascii '' Ada ''" "mount []"] 1
      login_passes_trimmed_nonblank_name [of "of_ascii ''   ''" "mount []"] 2
      login_passes_trimmed_nonblank_name [of "[]" "mount []"] 3
    by (simp only: trim_Ada)
qed

section \<open>The session of the editor\<close>

lemma logged_in_eq:
  "logged_in =
     \<lparr>username = of_ascii ''Ada'', userColor_state = of_ascii ''#3b82f6'', isConnected = False,
      changes = [], showConfirmation = False, hasContent = False, editorRef = True,
      viewRef = Some 0, wsProviderRef = Some 0,
      views = (\<lambda>_. \<lparr>doc = emptyDoc, view_destroyed = False, currentView = False\<rparr>)
        (0 := \<lparr>doc = emptyDoc, view_destroyed = False, currentView = True\<rparr>),
      providers = (\<lambda>_. new_provider)
        (0 := \<lparr>awareness_user = Some (of_ascii ''Ada'', of_ascii ''#3b82f6''),
               awareness_lastChange = None, status_handlers = [InitStatus],
               destroy_calls = 0\<rparr>),
      next_view = 1, next_provider = 1, timers = [], alerts = []\<rparr>"
proof -
  have "of_ascii ''Ada'' \<noteq> []"
    by (simp add: of_ascii_def)
  then show ?thesis
    by (simp add: logged_in_def submit_login_def handleSubmit_def trim_Ada truthy_def
        handleLogin_def render_def mount_def editor_effect_def Let_def new_provider_def)
qed

lemma trim_hello: "trim hello = hello" "hello \<noteq> []"
  by (simp_all add: hello_def trim_def of_ascii_def is_ws_def)

lemma typed_fields:
  "viewRef typed = Some 0" "wsProviderRef typed = Some 0" "hasContent typed"
  "currentView (views typed 0)" "textContent (doc (views typed 0)) = hello"
  "changes typed = []" "username typed = of_ascii ''Ada''"
  by (simp_all add: typed_def dispatchTransaction_def logged_in_eq replaceWith_all_def
      textContent_def Let_def truthy_def trim_hello)

section \<open>Submitting a change\<close>

lemma submit_accepted:
  assumes "viewRef s = Some v" and "hasContent s"
    and "trim (textContent (doc (views s v))) \<noteq> []"
  shows "handleSubmitChange env s =
     (let newChange =
            \<lparr>change_id = toString (now env), user = username s,
             userColor = userColor_state s, content = textContent (doc (views s v)),
             timestamp = date env\<rparr>;
          s1 = s\<lparr>changes := record_change newChange (changes s)\<rparr>
      in if dispatch_throws env
         then s1\<lparr>alerts := alerts s1 @ [failure_notice]\<rparr>
         else
           (let s2 = dispatchTransaction v (replaceWith_all emptyDoc) s1;
                s3 = s2\<lparr>hasContent := False\<rparr>;
                s4 = s3\<lparr>showConfirmation := True, timers := timers s3 @ [1500]\<rparr>
            in case wsProviderRef s4 of
                 None \<Rightarrow> s4
               | Some p \<Rightarrow>
                   s4\<lparr>providers := (providers s4)(p := (providers s4 p)
                        \<lparr>awareness_lastChange := Some
                           \<lparr>lc_id = change_id newChange, lc_user = username s,
                            lc_timestamp = timestamp newChange,
                            lc_content = change.content newChange\<rparr>\<rparr>)\<rparr>))"
  using assms by (simp add: handleSubmitChange_def truthy_def Let_def)

lemma dispatchTransaction_fields:
  "changes (dispatchTransaction v tr s) = changes s"
  "wsProviderRef (dispatchTransaction v tr s) = wsProviderRef s"
  "providers (dispatchTransaction v tr s) = providers s"
  "timers (dispatchTransaction v tr s) = timers s"
  "alerts (dispatchTransaction v tr s) = alerts s"
  "viewRef (dispatchTransaction v tr s) = viewRef s"
  "username (dispatchTransaction v tr s) = username s"
  by (simp_all add: dispatchTransaction_def Let_def)

lemma dispatchTransaction_doc:
  "currentView (views s v) \<Longrightarrow> doc (views (dispatchTransaction v tr s) v) = tr (doc (views s v))"
  by (simp add: dispatchTransaction_def Let_def)

lemma submit_changes:
  assumes "viewRef s = Some v" and "hasContent s"
    and "trim (textContent (doc (views s v))) \<noteq> []"
  shows "changes (handleSubmitChange env s) =
     \<lparr>change_id = toString (now env), user = username s,
      userColor = userColor_state s, content = textContent (doc (views s v)),
      timestamp = date env\<rparr> # take 9 (changes s)"
proof (cases "dispatch_throws env")
  case True
  then show ?thesis
    by (simp add: submit_accepted [OF assms] Let_def record_change_def)
next
  case False
  then show ?thesis
    by (simp add: submit_accepted [OF assms] Let_def record_change_def
        dispatchTransaction_fields split: option.split)
qed

text \<open>
  C3. Let the view be initialized by the editor effect (\<open>viewRef\<close> holds a view whose
  \<open>currentView\<close> is set, \<open>wsProviderRef\<close> holds the provider), let the text of its document
  be \<open>Hello world\<close> with the local state \<open>hasContent\<close>, and let the clearing transaction not
  raise. After \<open>handleSubmitChange\<close> the first of the recent changes has the content
  \<open>Hello world\<close>, the document is one empty block, \<open>hasContent\<close> is false, the
  confirmation is shown, and the field \<open>lastChange\<close> of the local awareness state holds
  the id, author, time and content of the change.
\<close>

theorem submit_hello_world:
  assumes "viewRef s = Some v" and "currentView (views s v)"
    and "wsProviderRef s = Some p"
    and "textContent (doc (views s v)) = of_ascii ''Hello world''"
    and "hasContent s" and "\<not> dispatch_throws env"
  shows "changes (handleSubmitChange env s) \<noteq> [] \<and>
         content (hd (changes (handleSubmitChange env s))) = of_ascii ''Hello world'' \<and>
         doc (views (handleSubmitChange env s) v) = [[]] \<and>
         textContent (doc (views (handleSubmitChange env s) v)) = [] \<and>
         \<not> hasContent (handleSubmitChange env s) \<and>
         showConfirmation (handleSubmitChange env s) \<and>
         awareness_lastChange (providers (handleSubmitChange env s) p) =
           Some \<lparr>lc_id = change_id (hd (changes (handleSubmitChange env s))),
                 lc_user = username s,
                 lc_timestamp = timestamp (hd (changes (handleSubmitChange env s))),
                 lc_content = of_ascii ''Hello world''\<rparr>"
proof -
  have t: "trim (textContent (doc (views s v))) \<noteq> []"
    using assms(4) trim_hello by (simp add: hello_def)
  note c = submit_changes [OF assms(1,5) t, of env]
  have e: "handleSubmitChange env s =
     (let newChange =
            \<lparr>change_id = toString (now env), user = username s,
             userColor = userColor_state s, content = of_ascii ''Hello world'',
             timestamp = date env\<rparr>;
          s1 = s\<lparr>changes := record_change newChange (changes s)\<rparr>;
          s2 = dispatchTransaction v (replaceWith_all emptyDoc) s1
      in s2\<lparr>hasContent := False, showConfirmation := True, timers := timers s2 @ [1500],
            providers := (providers s2)(p := (providers s2 p)
              \<lparr>awareness_lastChange := Some
                 \<lparr>lc_id = toString (now env), lc_user = username s,
                  lc_timestamp = date env, lc_content = of_ascii ''Hello world''\<rparr>\<rparr>)\<rparr>)"
    using assms(3,4,6)
    by (simp add: submit_accepted [OF assms(1,5) t] Let_def dispatchTransaction_fields)
  have d: "doc (views (handleSubmitChange env s) v) = [[]]"
    using assms(2)
    by (simp add: e Let_def dispatchTransaction_def replaceWith_all_def emptyDoc_def)
  have "awareness_lastChange (providers (handleSubmitChange env s) p) =
      Some \<lparr>lc_id = toString (now env), lc_user = username s,
            lc_timestamp = date env, lc_content = of_ascii ''Hello world''\<rparr>"
    by (simp add: e Let_def)
  moreover have "\<not> hasContent (handleSubmitChange env s)"
    and "showConfirmation (handleSubmitChange env s)"
    by (simp_all add: e Let_def)
  ultimately show ?thesis
    using c d assms(4) by (simp add: textContent_def)
qed

theorem submit_hello_world_witness:
  "viewRef typed = Some 0 \<and> currentView (views typed 0) \<and> wsProviderRef typed = Some 0 \<and>
   textContent (doc (views typed 0)) = of_ascii ''Hello world'' \<and> hasContent typed \<and>
   content (hd (changes (handleSubmitChange first_click typed))) = of_ascii ''Hello world'' \<and>
   doc (views (handleSubmitChange first_click typed) 0) = [[]] \<and>
   hasContent (handleSubmitChange first_click typed) = False \<and>
   awareness_lastChange (providers (handleSubmitChange first_click typed) 0) =
     Some \<lparr>lc_id = toString 1718000000000, lc_user = of_ascii ''Ada'',
           lc_timestamp = 1718000000000, lc_content = of_ascii ''Hello world''\<rparr>"
proof -
  have n: "\<not> dispatch_throws first_click"
    by (simp add: first_click_def)
  have h: "textContent (doc (views typed 0)) = of_ascii ''Hello world''"
    using typed_fields(5) by (simp add: hello_def)
  have c: "changes (handleSubmitChange first_click typed) =
     [\<lparr>change_id = toString 1718000000000, user = of_ascii ''Ada'',
       userColor = userColor_state typed, content = of_ascii ''Hello world'',
       timestamp = 1718000000000\<rparr>]"
    using submit_changes [OF typed_fields(1,3), of first_click] trim_hello h typed_fields(6,7)
    by (simp add: hello_def first_click_def)
  show ?thesis
    using submit_hello_world [OF typed_fields(1,4,2) h typed_fields(3) n] typed_fields h
    by (simp add: c)
qed

text \<open>
  C5. When \<open>viewRef\<close> holds no view, or \<open>hasContent\<close> is false, or the text of the document
  is empty or all white space, \<open>handleSubmitChange\<close> returns with the whole state of the
  component unchanged, whatever the clock reads and whether or not a transaction would
  raise: no change is recorded, the document is untouched, no notice is shown.
\<close>

theorem submit_without_content_changes_nothing:
  assumes "viewRef s = None \<or> \<not> hasContent s \<or>
           (\<exists>v. viewRef s = Some v \<and> (\<forall>c\<in>set (textContent (doc (views s v))). is_ws c))"
  shows "handleSubmitChange env s = s"
proof (cases "viewRef s")
  case None
  then show ?thesis
    by (simp add: handleSubmitChange_def)
next
  case (Some v)
  show ?thesis
  proof (cases "hasContent s")
    case False
    with Some show ?thesis
      by (simp add: handleSubmitChange_def)
  next
    case True
    with Some assms have "\<forall>c\<in>set (textContent (doc (views s v))). is_ws c"
      by simp
    then have "trim (textContent (doc (views s v))) = []"
      by (simp only: trim_Nil_iff)
    with Some show ?thesis
      by (simp add: handleSubmitChange_def truthy_def Let_def)
  qed
qed

theorem submit_without_content_changes_nothing_witness:
  "viewRef (mount []) = None \<and>
   handleSubmitChange first_click (mount []) = mount [] \<and>
   viewRef logged_in = Some 0 \<and> hasContent logged_in = False \<and>
   handleSubmitChange first_click logged_in = logged_in \<and>
   viewRef stale = Some 0 \<and> hasContent stale \<and> textContent (doc (views stale 0)) = [] \<and>
   handleSubmitChange first_click stale = stale"
proof -
  have a: "viewRef (mount []) = None"
    by (simp add: mount_def)
  have b: "viewRef logged_in = Some 0" "hasContent logged_in = False"
    by (simp_all add: logged_in_eq)
  have c: "viewRef stale = Some 0" "hasContent stale" "textContent (doc (views stale 0)) = []"
    by (simp_all add: stale_def logged_in_eq textContent_def emptyDoc_def)
  have c': "\<exists>v. viewRef stale = Some v \<and> (\<forall>c\<in>set (textContent (doc (views stale v))). is_ws c)"
    using c by simp
  show ?thesis
    using submit_without_content_changes_nothing [of "mount []" first_click] a
      submit_without_content_changes_nothing [of logged_in first_click] b
      submit_without_content_changes_nothing [of stale first_click] c c'
    by simp
qed

lemma trim_again: "trim (of_ascii ''again'') = of_ascii ''again''" "of_ascii ''again'' \<noteq> []"
  by (simp_all add: trim_def of_ascii_def is_ws_def)

lemma typed_again_fields:
  "viewRef typed_again = Some 0" "hasContent typed_again"
  "textContent (doc (views typed_again 0)) = of_ascii ''again''"
  "changes typed_again = changes (handleSubmitChange first_click typed)"
proof -
  have "viewRef (handleSubmitChange first_click typed) = Some 0"
    and "currentView (views (handleSubmitChange first_click typed) 0)"
    using typed_fields trim_hello
    by (simp_all add: submit_accepted [OF typed_fields(1,3)] first_click_def Let_def
        dispatchTransaction_def)
  then show "viewRef typed_again = Some 0" "hasContent typed_again"
    "textContent (doc (views typed_again 0)) = of_ascii ''again''"
    "changes typed_again = changes (handleSubmitChange first_click typed)"
    using trim_again
    by (simp_all add: typed_again_def dispatchTransaction_def Let_def replaceWith_all_def
        textContent_def truthy_def)
qed

text \<open>
  C8, as stated, fails. The id of a change is the reading of the clock in milliseconds:
  a second change submitted while the clock reads the same millisecond as for the first
  has the same id.
\<close>

theorem same_millisecond_same_id:
  "now first_click = now second_click \<and>
   map change.content (changes (handleSubmitChange first_click typed)) = [hello] \<and>
   map change.content (changes (handleSubmitChange second_click typed_again)) =
     [of_ascii ''again'', hello] \<and>
   map change_id (changes (handleSubmitChange second_click typed_again)) =
     [toString 1718000000000, toString 1718000000000]"
proof -
  have a: "changes (handleSubmitChange first_click typed) =
     [\<lparr>change_id = toString 1718000000000, user = of_ascii ''Ada'',
       userColor = userColor_state typed, content = hello, timestamp = 1718000000000\<rparr>]"
    using submit_changes [OF typed_fields(1,3), of first_click] trim_hello typed_fields(5,6,7)
    by (simp add: first_click_def)
  note t = typed_again_fields and again = trim_again
  have b: "changes (handleSubmitChange second_click typed_again) =
     \<lparr>change_id = toString 1718000000000, user = username typed_again,
       userColor = userColor_state typed_again, content = of_ascii ''again'',
       timestamp = 1718000000000\<rparr> # changes (handleSubmitChange first_click typed)"
    using submit_changes [OF t(1,2), of second_click] again t(3,4)
    by (simp add: second_click_def a)
  have n: "now first_click = now second_click"
    by (simp add: first_click_def second_click_def)
  show ?thesis
    using n by (simp add: b a)
qed

text \<open>
  C8, amended. A submission that passes the guards of \<open>handleSubmitChange\<close> puts first in
  the recent changes a change whose id is the decimal numeral of the reading of
  \<open>Date.now()\<close> and whose timestamp is the reading of \<open>new Date()\<close>. The ids of two such
  changes are distinct exactly when the two readings of \<open>Date.now()\<close> are.
\<close>

theorem change_ids_distinct_iff_clock_readings_distinct:
  assumes "viewRef s = Some v" and "hasContent s"
    and "trim (textContent (doc (views s v))) \<noteq> []"
    and "viewRef s' = Some v'" and "hasContent s'"
    and "trim (textContent (doc (views s' v'))) \<noteq> []"
  shows "hd (changes (handleSubmitChange env s)) =
           \<lparr>change_id = toString (now env), user = username s,
            userColor = userColor_state s, content = textContent (doc (views s v)),
            timestamp = date env\<rparr> \<and>
         (change_id (hd (changes (handleSubmitChange env s))) \<noteq>
            change_id (hd (changes (handleSubmitChange env' s')))
          \<longleftrightarrow> now env \<noteq> now env')"
proof -
  have "toString (now env) = toString (now env') \<longleftrightarrow> now env = now env'"
    by (auto dest: toString_inj)
  then show ?thesis
    by (simp add: submit_changes [OF assms(1-3)] submit_changes [OF assms(4-6)])
qed

theorem change_ids_distinct_iff_clock_readings_distinct_witness:
  "viewRef typed = Some 0 \<and> hasContent typed \<and>
   viewRef typed_again = Some 0 \<and> hasContent typed_again \<and>
   change_id (hd (changes (handleSubmitChange first_click typed))) = toString 1718000000000 \<and>
   change_id (hd (changes (handleSubmitChange later_click typed_again))) =
     toString 1718000000001 \<and>
   change_id (hd (changes (handleSubmitChange first_click typed))) \<noteq>
     change_id (hd (changes (handleSubmitChange later_click typed_again)))"
proof -
  have a: "trim (textContent (doc (views typed 0))) \<noteq> []"
    using typed_fields(5) trim_hello by simp
  have b: "trim (textContent (doc (views typed_again 0))) \<noteq> []"
    using typed_again_fields(3) trim_again by simp
  have n: "now first_click = 1718000000000" "now later_click = 1718000000001"
    by (simp_all add: first_click_def later_click_def)
  note t = change_ids_distinct_iff_clock_readings_distinct
        [OF typed_fields(1,3) a typed_again_fields(1,2) b, of first_click later_click]
  note u = change_ids_distinct_iff_clock_readings_distinct
        [OF typed_again_fields(1,2) b typed_fields(1,3) a, of later_click first_click]
  have 1: "change_id (hd (changes (handleSubmitChange first_click typed))) =
      toString 1718000000000"
    using t [THEN conjunct1] by (simp add: n)
  have 2: "change_id (hd (changes (handleSubmitChange later_click typed_again))) =
      toString 1718000000001"
    using u [THEN conjunct1] by (simp add: n)
  have 3: "change_id (hd (changes (handleSubmitChange first_click typed))) \<noteq>
     change_id (hd (changes (handleSubmitChange later_click typed_again)))"
    using t [THEN conjunct2] by (simp only: n)
  show ?thesis
    by (intro conjI typed_fields(1,3) typed_again_fields(1,2) 1 2 3)
qed

section \<open>Teardown\<close>

lemma editor_cleanup_idem: "editor_cleanup v (editor_cleanup v s) = editor_cleanup v s"
proof -
  have "currentView (views (editor_cleanup v s) v) = False"
    and "wsProviderRef (editor_cleanup v s) = None"
    by (simp_all add: editor_cleanup_def Let_def split: option.split)
  then show ?thesis
    by (simp add: editor_cleanup_def [of v "editor_cleanup v s"] Let_def)
qed

text \<open>
  C9 fails on the code. The cleanup function of the editor effect clears
  \<open>wsProviderRef\<close> after it has destroyed the provider, so running it again changes
  nothing. The cleanup function of the status effect destroys the provider and leaves
  \<open>wsProviderRef\<close> set: run a second time it destroys the provider again, and on unmount
  the cleanup function of the editor effect, which runs after it, destroys the provider a
  second time.
\<close>

theorem unmount_destroys_provider_twice:
  "editor_cleanup v (editor_cleanup v s) = editor_cleanup v s \<and>
   wsProviderRef logged_in = Some 0 \<and> viewRef logged_in = Some 0 \<and>
   destroy_calls (providers logged_in 0) = 0 \<and>
   destroy_calls (providers (editor_cleanup 0 logged_in) 0) = 1 \<and>
   destroy_calls (providers (editor_cleanup 0 (editor_cleanup 0 logged_in)) 0) = 1 \<and>
   destroy_calls (providers (status_cleanup logged_in) 0) = 1 \<and>
   destroy_calls (providers (status_cleanup (status_cleanup logged_in)) 0) = 2 \<and>
   destroy_calls (providers (unmount (Some 0) logged_in) 0) = 2"
proof -
  have "destroy_calls (providers (editor_cleanup 0 logged_in) 0) = 1"
    by (simp add: editor_cleanup_def logged_in_eq destroy_def Let_def)
  moreover have "destroy_calls (providers (status_cleanup logged_in) 0) = 1"
    and "destroy_calls (providers (status_cleanup (status_cleanup logged_in)) 0) = 2"
    and "destroy_calls (providers (unmount (Some 0) logged_in) 0) = 2"
    by (simp_all add: unmount_def editor_cleanup_def status_cleanup_def logged_in_eq
        destroy_def off_status_def Let_def)
  moreover have "wsProviderRef logged_in = Some 0" "viewRef logged_in = Some 0"
    "destroy_calls (providers logged_in 0) = 0"
    by (simp_all add: logged_in_eq)
  ultimately show ?thesis
    by (simp add: editor_cleanup_idem)
qed

end
